theory Spec2Isabelle
  imports Main
begin

unbundle bit_operations_syntax

section \<open>JavaScript values used by the font codec\<close>

text \<open>
  Numbers of the program are JavaScript numbers, that is doubles. Every number that
  reaches the codec is an integer (a token of the array parser, a bitmap dimension, a
  shift count), so they are modelled as \<open>int\<close>. A double holds an integer exactly up to
  \<open>2^53\<close>; a longer numeral is rounded to the nearest double, ties to the even
  significand (\<open>toDouble\<close>), and one beyond the range of the doubles becomes \<open>Infinity\<close>,
  for which \<open>2^1024\<close> stands (\<open>- 2^1024\<close> for \<open>-Infinity\<close>): like \<open>Infinity\<close> it is above
  every array length and is 0 under \<open>ToInt32\<close>. \<open>NaN\<close> is \<open>None\<close> where a conversion can
  produce it. The bit operators first bring their operands to 32-bit two's complement
  (\<open>ToInt32\<close>) and take the shift count modulo 32. An array has a length in
  \<open>[0, 2^32)\<close>: allocating one of another length is a RangeError
  (\<open>InvalidArrayLength\<close>). The memory and stack limits of an engine are not modelled.
\<close>

type_synonym bitmap = "bool list list"

type_synonym js_string = "nat list"  \<comment> \<open>UTF-16 code units\<close>

datatype error =
    UnsupportedHeight        \<comment> \<open>"Cannot convert bytes to bitmap for height > 8."\<close>
  | InvalidArrayLength       \<comment> \<open>RangeError of \<open>new Array(n)\<close> with \<open>n\<close> outside \<open>[0, 2^32)\<close>\<close>
  | BadWrite                 \<comment> \<open>a store outside the allocated matrix\<close>
  | InvalidHeight            \<comment> \<open>"Invalid height: ... Must be between 1 and 8."\<close>
  | ArrayLengthMismatch      \<comment> \<open>"Mismatch in array lengths: ..."\<close>
  | WidthsEmpty              \<comment> \<open>"Widths array appears to be empty ..."\<close>
  | OutOfBounds nat          \<comment> \<open>"Character ... (index i) has an offset+width ... that exceeds ..."\<close>
  | InvalidWidth             \<comment> \<open>"Invalid width: ... Must be a positive number ..."\<close>
  | DataEmpty                \<comment> \<open>"Data array is empty or could not be parsed ..."\<close>
  | DataSizeMismatch         \<comment> \<open>"Data array size mismatch. ..."\<close>
  | NoCanvasContext          \<comment> \<open>"Could not get canvas context"\<close>
  | NoSuperCanvasContext     \<comment> \<open>"Could not get super canvas context"\<close>

definition toInt32 :: "int \<Rightarrow> int" where
  "toInt32 x = signed_take_bit 31 x"

definition js_shl :: "int \<Rightarrow> int \<Rightarrow> int" where  \<comment> \<open>\<open>a << k\<close>\<close>
  "js_shl a k = toInt32 (push_bit (nat (k mod 32)) (toInt32 a))"

definition js_sar :: "int \<Rightarrow> int \<Rightarrow> int" where  \<comment> \<open>\<open>a >> k\<close>\<close>
  "js_sar a k = drop_bit (nat (k mod 32)) (toInt32 a)"

definition js_or :: "int \<Rightarrow> int \<Rightarrow> int" where  \<comment> \<open>\<open>a | b\<close>\<close>
  "js_or a b = toInt32 a OR toInt32 b"

definition js_and :: "int \<Rightarrow> int \<Rightarrow> int" where  \<comment> \<open>\<open>a & b\<close>\<close>
  "js_and a b = toInt32 a AND toInt32 b"

function bitLength :: "int \<Rightarrow> nat" where  \<comment> \<open>the number of binary digits of a positive integer\<close>
  "bitLength n = (if n \<le> 0 then 0 else Suc (bitLength (n div 2)))"
  by pat_completeness auto
termination
  by (relation "measure nat") auto

declare bitLength.simps [simp del]

definition roundDouble :: "int \<Rightarrow> int" where
  \<comment> \<open>the nearest double of \<open>n \<ge> 0\<close>: 53 significant bits, ties to even, \<open>2^1024\<close> for \<open>Infinity\<close>\<close>
  "roundDouble n =
     (let k = bitLength n in
      if k \<le> 53 then n
      else (let e = k - 53;
                q = n div 2 ^ e;
                r = n mod 2 ^ e;
                half = 2 ^ (e - 1);
                q' = (if r > half \<or> (r = half \<and> odd q) then q + 1 else q);
                v = q' * 2 ^ e
            in if v \<ge> 2 ^ 1024 then 2 ^ 1024 else v))"

definition toDouble :: "int \<Rightarrow> int" where
  "toDouble x = (if x < 0 then - roundDouble (- x) else roundDouble x)"

definition validArrayLength :: "int \<Rightarrow> bool" where
  \<comment> \<open>\<open>new Array(n)\<close> and \<open>Array(n)\<close> do not throw\<close>
  "validArrayLength n = (0 \<le> n \<and> n < 2 ^ 32)"

text \<open>
  \<open>Array.from({ length: ht }, () => new Array(w).fill(false))\<close>: a negative \<open>ht\<close> counts
  as 0, the array of the rows is allocated first, and the callback allocates a row only
  when there is a row to make.
\<close>

definition allFalse :: "int \<Rightarrow> int \<Rightarrow> error + bitmap" where
  "allFalse ht w =
     (if ht \<ge> 2 ^ 32 \<or> (0 < ht \<and> \<not> validArrayLength w) then Inl InvalidArrayLength
      else Inr (replicate (nat ht) (replicate (nat w) False)))"

definition emptyRows :: "int \<Rightarrow> error + bitmap" where
  \<comment> \<open>\<open>Array.from({ length: ht }, () => [])\<close>\<close>
  "emptyRows ht =
     (if ht \<ge> 2 ^ 32 then Inl InvalidArrayLength else Inr (replicate (nat ht) []))"

text \<open>A loop whose body may throw: the first error ends it.\<close>

fun foldE :: "('a \<Rightarrow> 's \<Rightarrow> error + 's) \<Rightarrow> 'a list \<Rightarrow> 's \<Rightarrow> error + 's" where
  "foldE f [] s = Inr s"
| "foldE f (x # xs) s = (case f x s of Inl e \<Rightarrow> Inl e | Inr s' \<Rightarrow> foldE f xs s')"

section \<open>ByteCodec\<close>

subsection \<open>\<open>bitmapToBytes\<close> (ImportFontModal.tsx)\<close>

definition px :: "bitmap \<Rightarrow> nat \<Rightarrow> nat \<Rightarrow> bool" where  \<comment> \<open>\<open>bitmap[r]?.[c]\<close>, a missing cell is falsy\<close>
  "px bm r c = (r < length bm \<and> c < length (bm ! r) \<and> bm ! r ! c)"

definition row0_width :: "bitmap \<Rightarrow> nat" where  \<comment> \<open>\<open>bitmap[0]?.length || 0\<close>\<close>
  "row0_width bm = (case bm of [] \<Rightarrow> 0 | row # _ \<Rightarrow> length row)"

definition encodeColumn :: "bitmap \<Rightarrow> int \<Rightarrow> nat \<Rightarrow> int" where
  "encodeColumn bm height c =
     fold (\<lambda>r byte. if px bm r c then js_or byte (js_shl 1 (height - 1 - int r)) else byte)
       [0..<nat height] 0"

definition bitmapToBytes :: "bitmap \<Rightarrow> int \<Rightarrow> int list" where
  "bitmapToBytes bm height =
     fold (\<lambda>c bytes. bytes @ [encodeColumn bm height c]) [0..<row0_width bm] []"

subsection \<open>\<open>bytesToBitmap\<close> (fontParser.ts)\<close>

definition byteAt :: "int list \<Rightarrow> nat \<Rightarrow> int" where  \<comment> \<open>\<open>bytes[c] || 0\<close>\<close>
  "byteAt bytes c = (if c < length bytes then bytes ! c else 0)"

text \<open>
  The store \<open>bitmap[r][c] = true\<close>. A store into a missing row is a TypeError in
  JavaScript and a store past the end of a row would grow the row; the model reports
  both as \<open>BadWrite\<close>, so that a result \<open>Inr\<close> says that every store was inside the
  matrix allocated at the start.
\<close>

definition setPixel :: "bitmap \<Rightarrow> nat \<Rightarrow> nat \<Rightarrow> error + bitmap" where
  "setPixel bm r c =
     (if r < length bm \<and> c < length (bm ! r) then Inr (bm[r := (bm ! r)[c := True]])
      else Inl BadWrite)"

definition decodeColumn :: "int \<Rightarrow> int \<Rightarrow> nat \<Rightarrow> bitmap \<Rightarrow> error + bitmap" where
  "decodeColumn byte height c bm =
     foldE (\<lambda>r b. if js_and (js_sar byte (height - 1 - int r)) 1 \<noteq> 0 then setPixel b r c
                   else Inr b)
       [0..<nat height] bm"

definition bytesToBitmap :: "int list \<Rightarrow> int \<Rightarrow> int \<Rightarrow> error + bitmap" where
  "bytesToBitmap bytes width height =
     (case allFalse height width of
        Inl e \<Rightarrow> Inl e
      | Inr bitmap0 \<Rightarrow>
          if height > 8 then Inl UnsupportedHeight
          else foldE (\<lambda>c bm. decodeColumn (byteAt bytes c) height c bm) [0..<nat width] bitmap0)"

section \<open>ArrayTextParser: \<open>parseArrayString\<close> (fontParser.ts)\<close>

text \<open>
  A JavaScript string is its list of UTF-16 code units. \<open>str\<close> turns an Isabelle
  string literal into one; \<open>quote\<close> and \<open>backslash\<close> are the two characters
  that a literal cannot hold conveniently.
\<close>

definition str :: "string \<Rightarrow> js_string" where
  "str s = map of_char s"

definition quote :: nat where  \<comment> \<open>the apostrophe\<close>
  "quote = 39"

definition backslash :: nat where
  "backslash = 92"

definition isLineTerminator :: "nat \<Rightarrow> bool" where  \<comment> \<open>what \<open>.\<close> does not match and where \<open>$\<close> matches\<close>
  "isLineTerminator c = (c = 10 \<or> c = 13 \<or> c = 8232 \<or> c = 8233)"

definition isWhiteSpace :: "nat \<Rightarrow> bool" where  \<comment> \<open>white space and line terminators, as \<open>trim\<close> and \<open>parseInt\<close> skip them\<close>
  "isWhiteSpace c = (c \<in> set [9, 10, 11, 12, 13, 32, 160, 5760, 8232, 8233, 8239, 8287, 12288, 65279]
       \<or> (8192 \<le> c \<and> c \<le> 8202))"

definition isDigit :: "nat \<Rightarrow> bool" where  \<comment> \<open>\<open>\d\<close>\<close>
  "isDigit c = (48 \<le> c \<and> c \<le> 57)"

definition isHexDigit :: "nat \<Rightarrow> bool" where  \<comment> \<open>\<open>[0-9a-fA-F]\<close>\<close>
  "isHexDigit c = (isDigit c \<or> (97 \<le> c \<and> c \<le> 102) \<or> (65 \<le> c \<and> c \<le> 70))"

definition isBinDigit :: "nat \<Rightarrow> bool" where  \<comment> \<open>\<open>[01]\<close>\<close>
  "isBinDigit c = (c = 48 \<or> c = 49)"

subsection \<open>Step 1: comments\<close>

text \<open>
  \<open>text.replace(/\/\*[\s\S]*?\*\/|(\/\/|#).*$/gm, '')\<close>: scanning from the left, a
  \<open>/*\<close> with a later \<open>*/\<close> is removed up to the first such \<open>*/\<close>; otherwise a \<open>//\<close>
  or a \<open>#\<close> is removed up to the end of its line; otherwise the character stays.
\<close>

fun afterBlockEnd :: "js_string \<Rightarrow> js_string option" where  \<comment> \<open>the text after the first \<open>*/\<close>\<close>
  "afterBlockEnd (c # d # cs) = (if c = 42 \<and> d = 47 then Some cs else afterBlockEnd (d # cs))"
| "afterBlockEnd _ = None"

function stripComments :: "js_string \<Rightarrow> js_string" where
  "stripComments [] = []"
| "stripComments (c # cs) =
     (case (if c = 47 \<and> take 1 cs = [42] then afterBlockEnd (drop 1 cs) else None) of
        Some rest \<Rightarrow> stripComments rest
      | None \<Rightarrow>
          if (c = 47 \<and> take 1 cs = [47]) \<or> c = 35
          then stripComments (dropWhile (\<lambda>x. \<not> isLineTerminator x) cs)
          else c # stripComments cs)"
  by pat_completeness auto
termination
proof (relation "measure length")
  show "wf (measure length)" by simp
next
  fix c :: nat and cs rest :: js_string
  assume "(if c = 47 \<and> take 1 cs = [42] then afterBlockEnd (drop 1 cs) else None) = Some rest"
  then have "afterBlockEnd (drop 1 cs) = Some rest" by (simp split: if_splits)
  moreover have "afterBlockEnd s = Some rest \<Longrightarrow> length rest < length s" for s
    by (induction s rule: afterBlockEnd.induct) (auto split: if_splits)
  ultimately have "length rest < length (drop 1 cs)" by blast
  then show "(rest, c # cs) \<in> measure length" by simp
next
  fix c :: nat and cs :: js_string
  have "length (dropWhile (\<lambda>x. \<not> isLineTerminator x) cs) \<le> length cs"
    by (rule length_dropWhile_le)
  then show "(dropWhile (\<lambda>x. \<not> isLineTerminator x) cs, c # cs) \<in> measure length" by simp
next
  fix c :: nat and cs :: js_string
  show "(cs, c # cs) \<in> measure length" by simp
qed

subsection \<open>Step 2: the body between the brackets\<close>

fun indexOf :: "nat \<Rightarrow> js_string \<Rightarrow> int" where  \<comment> \<open>\<open>s.indexOf(ch)\<close>, \<open>-1\<close> when absent\<close>
  "indexOf ch [] = - 1"
| "indexOf ch (c # cs) =
     (if c = ch then 0 else (let i = indexOf ch cs in if i = - 1 then - 1 else i + 1))"

definition lastIndexOf :: "nat \<Rightarrow> js_string \<Rightarrow> int" where  \<comment> \<open>\<open>s.lastIndexOf(ch)\<close>\<close>
  "lastIndexOf ch s =
     (let i = indexOf ch (rev s) in if i = - 1 then - 1 else int (length s) - 1 - i)"

definition substring :: "'a list \<Rightarrow> int \<Rightarrow> int \<Rightarrow> 'a list" where
  \<comment> \<open>\<open>s.substring(a, b)\<close>: both ends clamped to the string, swapped when \<open>a > b\<close>\<close>
  "substring s a b =
     (let a' = nat (max 0 (min a (int (length s)))); b' = nat (max 0 (min b (int (length s))))
      in take (max a' b' - min a' b') (drop (min a' b') s))"

definition bracketBody :: "js_string \<Rightarrow> js_string" where
  "bracketBody content =
     (let firstBracket = indexOf 123 content;
          firstSquare = indexOf 91 content;
          start = (if firstBracket > - 1 \<and> firstSquare > - 1 then min firstBracket firstSquare
                   else max firstBracket firstSquare);
          lastBracket = lastIndexOf 125 content;
          lastSquare = lastIndexOf 93 content;
          endIdx = max lastBracket lastSquare
      in if start \<noteq> - 1 \<and> endIdx \<noteq> - 1 \<and> start < endIdx
         then substring content (start + 1) endIdx else content)"

subsection \<open>Step 3: tokens\<close>

text \<open>
  \<open>content.match(/0x[0-9a-fA-F]+|0b[01]+|-?\d+|'(\\.|[^'])'/g)\<close>: at each position the
  four alternatives are tried in this order; a match is returned with the text after it,
  and where none matches the scan moves one character on.
\<close>

definition matchHex :: "js_string \<Rightarrow> (js_string \<times> js_string) option" where
  "matchHex s =
     (if take 2 s = [48, 120] \<and> takeWhile isHexDigit (drop 2 s) \<noteq> []
      then Some (take 2 s @ takeWhile isHexDigit (drop 2 s), dropWhile isHexDigit (drop 2 s))
      else None)"

definition matchBin :: "js_string \<Rightarrow> (js_string \<times> js_string) option" where
  "matchBin s =
     (if take 2 s = [48, 98] \<and> takeWhile isBinDigit (drop 2 s) \<noteq> []
      then Some (take 2 s @ takeWhile isBinDigit (drop 2 s), dropWhile isBinDigit (drop 2 s))
      else None)"

definition matchDec :: "js_string \<Rightarrow> (js_string \<times> js_string) option" where
  "matchDec s =
     (let sign = (if take 1 s = [45] then [45] else []);
          r = drop (length sign) s
      in if takeWhile isDigit r \<noteq> [] then Some (sign @ takeWhile isDigit r, dropWhile isDigit r)
         else None)"

definition matchCharLit :: "js_string \<Rightarrow> (js_string \<times> js_string) option" where
  "matchCharLit s =
     (if 4 \<le> length s \<and> s ! 0 = quote \<and> s ! 1 = backslash \<and> \<not> isLineTerminator (s ! 2)
         \<and> s ! 3 = quote
      then Some (take 4 s, drop 4 s)
      else if 3 \<le> length s \<and> s ! 0 = quote \<and> s ! 1 \<noteq> quote \<and> s ! 2 = quote
      then Some (take 3 s, drop 3 s)
      else None)"

definition matchToken :: "js_string \<Rightarrow> (js_string \<times> js_string) option" where
  "matchToken s =
     (case matchHex s of Some m \<Rightarrow> Some m | None \<Rightarrow>
      case matchBin s of Some m \<Rightarrow> Some m | None \<Rightarrow>
      case matchDec s of Some m \<Rightarrow> Some m | None \<Rightarrow> matchCharLit s)"

function tokenize :: "js_string \<Rightarrow> js_string list" where
  "tokenize [] = []"
| "tokenize (c # cs) =
     (case matchToken (c # cs) of
        Some (tok, rest) \<Rightarrow> tok # tokenize rest
      | None \<Rightarrow> tokenize cs)"
  by pat_completeness auto
termination
proof (relation "measure length")
  show "wf (measure length)" by simp
next
  fix c :: nat and cs :: js_string
  show "(cs, c # cs) \<in> measure length" by simp
next
  fix c :: nat and cs tok rest :: js_string and m
  assume m: "matchToken (c # cs) = Some m" "(tok, rest) = m"
  have d: "length (dropWhile P xs) < length xs" if "takeWhile P xs \<noteq> []" for P and xs :: js_string
    using that by (cases xs) (auto simp: le_imp_less_Suc length_dropWhile_le split: if_splits)
  have e: "length (dropWhile P (drop n xs)) < length xs" if "takeWhile P (drop n xs) \<noteq> []"
    for P n and xs :: js_string
    using d [OF that] by simp
  have "length rest < length (c # cs)"
    using m d [of isDigit "c # cs"] d [of isDigit cs]
      e [of isHexDigit 2 "c # cs"] e [of isBinDigit 2 "c # cs"]
    by (auto simp: matchToken_def matchHex_def matchBin_def matchDec_def matchCharLit_def Let_def
        split: option.splits if_splits)
  then show "(rest, c # cs) \<in> measure length" by simp
qed

subsection \<open>Steps 4 and 5: the value of a token\<close>

text \<open>\<open>None\<close> stands for \<open>NaN\<close>.\<close>

definition charCodeAt :: "js_string \<Rightarrow> nat \<Rightarrow> int option" where
  "charCodeAt s i = (if i < length s then Some (int (s ! i)) else None)"

definition digitValue :: "nat \<Rightarrow> int" where
  "digitValue c =
     (if isDigit c then int c - 48 else if 97 \<le> c \<and> c \<le> 102 then int c - 87 else int c - 55)"

definition digitsValue :: "int \<Rightarrow> js_string \<Rightarrow> int" where
  "digitsValue radix ds = foldl (\<lambda>acc d. acc * radix + digitValue d) 0 ds"

definition parseInt16 :: "js_string \<Rightarrow> int option" where  \<comment> \<open>\<open>parseInt(s, 16)\<close>\<close>
  "parseInt16 s =
     (let s1 = dropWhile isWhiteSpace s;
          s2 = (if take 1 s1 = [45] \<or> take 1 s1 = [43] then drop 1 s1 else s1);
          s3 = (if take 2 s2 = [48, 120] \<or> take 2 s2 = [48, 88] then drop 2 s2 else s2);
          ds = takeWhile isHexDigit s3
      in if ds = [] then None
         else Some (toDouble ((if take 1 s1 = [45] then - 1 else 1) * digitsValue 16 ds)))"

text \<open>
  \<open>Number(token)\<close> on the three shapes of numeric token that the token expression
  produces; no other string reaches it. The value of the numeral is rounded to a double.
\<close>

definition toNumber :: "js_string \<Rightarrow> int option" where
  "toNumber tok =
     (if take 2 tok = [48, 120] \<and> drop 2 tok \<noteq> [] \<and> list_all isHexDigit (drop 2 tok)
      then Some (toDouble (digitsValue 16 (drop 2 tok)))
      else if take 2 tok = [48, 98] \<and> drop 2 tok \<noteq> [] \<and> list_all isBinDigit (drop 2 tok)
      then Some (toDouble (digitsValue 2 (drop 2 tok)))
      else if tok \<noteq> [] \<and> list_all isDigit tok
      then Some (toDouble (digitsValue 10 tok))
      else if take 1 tok = [45] \<and> drop 1 tok \<noteq> [] \<and> list_all isDigit (drop 1 tok)
      then Some (toDouble (- digitsValue 10 (drop 1 tok)))
      else None)"

definition escapeCode :: "js_string \<Rightarrow> int option" where
  \<comment> \<open>the \<open>switch (charContent[1])\<close> of a content that starts with a backslash\<close>
  "escapeCode charContent =
     (let e = charContent ! 1 in
      if e = 110 then Some 10
      else if e = 114 then Some 13
      else if e = 116 then Some 9
      else if e = quote then Some 39
      else if e = 34 then Some 34
      else if e = backslash then Some 92
      else if e = 48 then Some 0
      else if e = 120 then
        (if length charContent > 2
         then (case parseInt16 (drop 2 charContent) of None \<Rightarrow> Some 120 | Some hexVal \<Rightarrow> Some hexVal)
         else Some 120)
      else charCodeAt charContent 1)"

definition tokenValue :: "js_string \<Rightarrow> int option" where
  "tokenValue token =
     (if take 1 token = [quote] \<and> token \<noteq> [] \<and> last token = quote
      then (let charContent = substring token 1 (int (length token) - 1)
            in if take 1 charContent = [backslash] \<and> length charContent > 1
               then escapeCode charContent
               else charCodeAt charContent 0)
      else toNumber token)"

definition parseArrayString :: "js_string \<Rightarrow> int list" where
  "parseArrayString text =
     (if text = [] then []
      else fold (\<lambda>token numbers. case tokenValue token of None \<Rightarrow> numbers
                                   | Some v \<Rightarrow> numbers @ [v])
             (tokenize (bracketBody (stripComments text))) [])"

section \<open>FontImportAssembler: \<open>parseImportedData\<close> (fontParser.ts)\<close>

record GeneratedChar =
  char :: js_string
  ascii :: "int option"  \<comment> \<open>\<open>char.charCodeAt(0)\<close>; the rasterizer stores \<open>codePointAt(0)\<close> here\<close>
  bitmap :: bitmap
  bytes :: "int list"

record ImportOptions =
  rawData :: js_string
  rawWidths :: js_string
  rawOffsets :: js_string
  characterSet :: js_string
  charHeight :: int
  charWidth :: int
  isDynamic :: bool

text \<open>The result: the glyph records and the five recovered options.\<close>

record ParsedFontData =
  fontData :: "GeneratedChar list"
  optWidth :: int
  optHeight :: int
  optCharacterSet :: js_string
  optDynamicWidth :: bool
  optCharSpacing :: int

definition slice :: "'a list \<Rightarrow> int \<Rightarrow> int \<Rightarrow> 'a list" where
  \<comment> \<open>\<open>xs.slice(start, end)\<close>: a negative index counts from the end\<close>
  "slice xs start end =
     (let len = int (length xs);
          k = (if start < 0 then max (len + start) 0 else min start len);
          final = (if end < 0 then max (len + end) 0 else min end len)
      in take (nat (final - k)) (drop (nat k) xs))"

definition uniqueChars :: "js_string \<Rightarrow> js_string list" where
  \<comment> \<open>\<open>[...new Set(characterSet.split(''))]\<close>: one string per code unit, first occurrences\<close>
  "uniqueChars s = fold (\<lambda>c seen. if [c] \<in> set seen then seen else seen @ [[c]]) s []"

definition dynamicStep ::
  "js_string list \<Rightarrow> int list \<Rightarrow> int list \<Rightarrow> int list \<Rightarrow> int \<Rightarrow> nat
     \<Rightarrow> int \<times> GeneratedChar list \<Rightarrow> error + int \<times> GeneratedChar list" where
  \<comment> \<open>one round of the loop of the dynamic branch; the state is \<open>maxWidth\<close> and \<open>generatedChars\<close>\<close>
  "dynamicStep uniq dataBytes widths offsets height i st =
     (let ch = uniq ! i;
          width = widths ! i;
          offset = offsets ! i;
          maxWidth = (if width > fst st then width else fst st)
      in if offset + width > int (length dataBytes) then Inl (OutOfBounds i)
         else (let bs = slice dataBytes offset (offset + width)
               in case bytesToBitmap bs width height of
                    Inl e \<Rightarrow> Inl e
                  | Inr bm \<Rightarrow>
                      Inr (maxWidth,
                           snd st @ [\<lparr>char = ch, ascii = charCodeAt ch 0, bitmap = bm, bytes = bs\<rparr>])))"

definition fixedStep ::
  "js_string list \<Rightarrow> int list \<Rightarrow> int \<Rightarrow> int \<Rightarrow> nat
     \<Rightarrow> GeneratedChar list \<Rightarrow> error + GeneratedChar list" where
  \<comment> \<open>one round of the loop of the fixed branch\<close>
  "fixedStep uniq dataBytes width height i generatedChars =
     (let ch = uniq ! i;
          startIndex = int i * width;
          bs = slice dataBytes startIndex (startIndex + width)
      in case bytesToBitmap bs width height of
           Inl e \<Rightarrow> Inl e
         | Inr bm \<Rightarrow>
             Inr (generatedChars @ [\<lparr>char = ch, ascii = charCodeAt ch 0, bitmap = bm, bytes = bs\<rparr>]))"

text \<open>
  In the loops the indices \<open>i\<close> are below the length of \<open>uniqueChars\<close>, and the checks
  before the dynamic loop leave it with \<open>widths\<close> and \<open>offsets\<close> of that same length, so
  that \<open>widths[i]\<close> and \<open>offsets[i]\<close> exist. The sum \<open>offset + width\<close> is a sum of doubles;
  it is exact up to \<open>2^53\<close>, and beyond it the rounded and the exact sum are on the same
  side of every array length, in the comparison and in \<open>slice\<close>, so the exact sum is kept.
\<close>

definition parseImportedData :: "ImportOptions \<Rightarrow> error + ParsedFontData" where
  "parseImportedData options =
     (let uniq = uniqueChars (characterSet options) in
      if charHeight options \<le> 0 \<or> charHeight options > 8 then Inl InvalidHeight
      else if isDynamic options then
        (let dataBytes = parseArrayString (rawData options);
             widths = parseArrayString (rawWidths options);
             offsets = parseArrayString (rawOffsets options)
         in if length widths > 0 \<and> (length uniq \<noteq> length widths \<or> length uniq \<noteq> length offsets)
            then Inl ArrayLengthMismatch
            else if length widths = 0 \<and> length uniq > 0 then Inl WidthsEmpty
            else (case foldE (dynamicStep uniq dataBytes widths offsets (charHeight options))
                         [0..<length uniq] (0, []) of
                    Inl e \<Rightarrow> Inl e
                  | Inr st \<Rightarrow>
                      Inr \<lparr>fontData = snd st,
                           optWidth = (if fst st > 0 then fst st else 8),
                           optHeight = charHeight options,
                           optCharacterSet = characterSet options,
                           optDynamicWidth = True,
                           optCharSpacing = 0\<rparr>))
      else if charWidth options \<le> 0 then Inl InvalidWidth
      else
        (let dataBytes = parseArrayString (rawData options)
         in if length dataBytes = 0 \<and> length uniq > 0 then Inl DataEmpty
            else if int (length dataBytes) \<noteq> int (length uniq) * charWidth options \<and> length uniq > 0
            then Inl DataSizeMismatch
            else (case foldE (fixedStep uniq dataBytes (charWidth options) (charHeight options))
                         [0..<length uniq] [] of
                    Inl e \<Rightarrow> Inl e
                  | Inr generatedChars \<Rightarrow>
                      Inr \<lparr>fontData = generatedChars,
                           optWidth = charWidth options,
                           optHeight = charHeight options,
                           optCharacterSet = characterSet options,
                           optDynamicWidth = False,
                           optCharSpacing = 0\<rparr>)))"

section \<open>FormatConverter (ImportFontModal.tsx)\<close>

text \<open>
  The converters are modelled as total functions. Their allocations, \<open>new Array(spaceWidth)\<close>
  and \<open>Array(paddingCols)\<close>, fail only for a width from \<open>2^32\<close> on; the width given to
  \<open>convertToDynamic\<close> is the width of a fixed-width import, which the import has checked
  against the length of the data array.
\<close>

subsection \<open>\<open>alignBitmap\<close>\<close>

datatype direction = Top | Bottom

definition somePixel :: "bool list \<Rightarrow> bool" where  \<comment> \<open>\<open>row.some(pixel => pixel)\<close>\<close>
  "somePixel row = list_ex (\<lambda>pixel. pixel) row"

definition findRows :: "bitmap \<Rightarrow> int \<times> int" where
  \<comment> \<open>the first loop: \<open>(firstRowWithPixel, lastRowWithPixel)\<close>, \<open>-1\<close> when there is none\<close>
  "findRows bm =
     fold (\<lambda>r (firstRowWithPixel, lastRowWithPixel).
             if somePixel (bm ! r)
             then ((if firstRowWithPixel = - 1 then int r else firstRowWithPixel), int r)
             else (firstRowWithPixel, lastRowWithPixel))
       [0..<length bm] (- 1, - 1)"

definition alignBitmap :: "bitmap \<Rightarrow> direction \<Rightarrow> bitmap" where
  "alignBitmap bm direction =
     (let height = length bm in
      if height = 0 then bm
      else
        (let width = row0_width bm;
             firstRowWithPixel = fst (findRows bm);
             lastRowWithPixel = snd (findRows bm)
         in if firstRowWithPixel = - 1 then bm
            else
              (let newBitmap = replicate height (replicate width False)
               in case direction of
                    Top \<Rightarrow>
                      (let shiftAmount = nat firstRowWithPixel
                       in if shiftAmount = 0 then bm
                          else fold (\<lambda>r nb. nb[r - shiftAmount := bm ! r]) [shiftAmount..<height]
                                 newBitmap)
                  | Bottom \<Rightarrow>
                      (let shiftAmount = (height - 1) - nat lastRowWithPixel
                       in if shiftAmount = 0 then bm
                          else fold (\<lambda>r nb. nb[r + shiftAmount := bm ! r])
                                 [0..<Suc (nat lastRowWithPixel)] newBitmap))))"

subsection \<open>\<open>convertToDynamic\<close>\<close>

definition scanColumns :: "bitmap \<Rightarrow> int \<times> int" where
  \<comment> \<open>the two nested loops: \<open>(minX, maxX)\<close>, starting from \<open>(bitmap[0]?.length ?? 0, -1)\<close>\<close>
  "scanColumns bm =
     fold (\<lambda>y st.
             fold (\<lambda>x (minX, maxX).
                     if bm ! y ! x
                     then ((if int x < minX then int x else minX),
                           (if int x > maxX then int x else maxX))
                     else (minX, maxX))
               [0..<length (bm ! y)] st)
       [0..<length bm] (int (row0_width bm), - 1)"

definition dynamicGlyph :: "int \<Rightarrow> GeneratedChar \<Rightarrow> int \<Rightarrow> GeneratedChar \<times> int" where
  \<comment> \<open>the callback of \<open>map\<close>: the new record, and the \<open>maxWidth\<close> that it updates\<close>
  "dynamicGlyph originalWidth charData maxWidth =
     (if char charData = [32]
      then (let spaceWidth = max 1 (originalWidth div 2)
            in (charData\<lparr>bitmap := replicate (length (bitmap charData))
                                       (replicate (nat spaceWidth) False),
                         bytes := replicate (nat spaceWidth) 0\<rparr>,
                if spaceWidth > maxWidth then spaceWidth else maxWidth))
      else (let minX = fst (scanColumns (bitmap charData));
                maxX = snd (scanColumns (bitmap charData));
                height = length (bitmap charData)
            in if maxX = - 1
               then (charData\<lparr>bitmap := replicate height [], bytes := []\<rparr>, maxWidth)
               else (let newWidth = maxX - minX + 1
                     in (charData\<lparr>bitmap := map (\<lambda>row. slice row minX (maxX + 1)) (bitmap charData),
                                  bytes := slice (bytes charData) minX (maxX + 1)\<rparr>,
                         if newWidth > maxWidth then newWidth else maxWidth))))"

definition convertToDynamic :: "GeneratedChar list \<Rightarrow> int \<Rightarrow> GeneratedChar list \<times> int" where
  \<comment> \<open>\<open>{ newData, maxWidth }\<close>\<close>
  "convertToDynamic fontData' originalWidth =
     fold (\<lambda>charData (newData, maxWidth).
             (newData @ [fst (dynamicGlyph originalWidth charData maxWidth)],
              snd (dynamicGlyph originalWidth charData maxWidth)))
       fontData' ([], 0)"

subsection \<open>\<open>convertToFixed\<close>\<close>

definition fixedGlyph :: "int \<Rightarrow> GeneratedChar \<Rightarrow> GeneratedChar" where
  "fixedGlyph newWidth charData =
     (let currentWidth = int (length (bytes charData))
      in if currentWidth = newWidth then charData
         else if currentWidth > newWidth
         then charData\<lparr>bitmap := map (\<lambda>row. slice row 0 newWidth) (bitmap charData),
                       bytes := slice (bytes charData) 0 newWidth\<rparr>
         else (let paddingCols = nat (newWidth - currentWidth)
               in charData\<lparr>bitmap := map (\<lambda>row. row @ replicate paddingCols False) (bitmap charData),
                            bytes := bytes charData @ replicate paddingCols 0\<rparr>))"

definition convertToFixed :: "GeneratedChar list \<Rightarrow> int \<Rightarrow> GeneratedChar list" where
  "convertToFixed fontData' newWidth = map (fixedGlyph newWidth) fontData'"

subsection \<open>Vertical realignment in \<open>handleFinalImport\<close>\<close>

definition realignGlyph :: "direction \<Rightarrow> int \<Rightarrow> GeneratedChar \<Rightarrow> GeneratedChar" where
  \<comment> \<open>the callback of the \<open>map\<close> under \<open>verticalAlign !== 'keep'\<close>\<close>
  "realignGlyph verticalAlign height charData =
     (let newBitmap = alignBitmap (bitmap charData) verticalAlign;
          newBytes = bitmapToBytes newBitmap height
      in charData\<lparr>bitmap := newBitmap, bytes := newBytes\<rparr>)"

section \<open>RasterizationPipeline: \<open>generateChars\<close> (the font generator service, at the end of App.tsx)\<close>

text \<open>
  The canvas of the platform is outside the program. Of it the model keeps whether a
  drawing context could be obtained, and \<open>render\<close>: for one character, the whole of
  measuring, drawing, reading the pixels back and thresholding or dithering them under
  the options of the call, that is the \<open>renderedBitmap\<close> of the loop, or the exception
  that obtaining the supersampling context can raise. The program builds
  \<open>renderedBitmap\<close> with \<open>height\<close> rows of \<open>glyphRenderWidth\<close> pixels in each of its
  three render modes; no theorem below needs that shape.
\<close>

record Canvas =
  contextAvailable :: bool
  render :: "js_string \<Rightarrow> error + bitmap"

text \<open>The fields of \<open>FontGeneratorOptions\<close> that \<open>generateChars\<close> itself reads; the others only reach the canvas.\<close>

record FontGeneratorOptions =
  width :: int
  height :: int
  charSpacing :: int
  dynamicWidth :: bool

definition codePointAt0 :: "js_string \<Rightarrow> int option" where  \<comment> \<open>\<open>char.codePointAt(0)\<close>\<close>
  "codePointAt0 s =
     (case s of
        [] \<Rightarrow> None
      | [a] \<Rightarrow> Some (int a)
      | a # b # _ \<Rightarrow>
          if 55296 \<le> a \<and> a \<le> 56319 \<and> 56320 \<le> b \<and> b \<le> 57343
          then Some ((int a - 55296) * 1024 + (int b - 56320) + 65536)
          else Some (int a))"

definition scanRendered :: "bitmap \<Rightarrow> int \<Rightarrow> int \<Rightarrow> int \<times> int" where
  \<comment> \<open>the scan of the dynamic branch: \<open>(minX, maxX)\<close>, starting from \<open>(glyphRenderWidth, -1)\<close>\<close>
  "scanRendered renderedBitmap ht glyphRenderWidth =
     fold (\<lambda>y st.
             fold (\<lambda>x (minX, maxX).
                     if renderedBitmap ! y ! x
                     then ((if int x < minX then int x else minX),
                           (if int x > maxX then int x else maxX))
                     else (minX, maxX))
               [0..<nat glyphRenderWidth] st)
       [0..<nat ht] (glyphRenderWidth, - 1)"

text \<open>
  The body of the loop over the characters: the record that it pushes. The bytes are
  built by a loop that is, statement for statement, \<open>bitmapToBytes\<close>.
\<close>

definition glyphOf :: "Canvas \<Rightarrow> FontGeneratorOptions \<Rightarrow> js_string \<Rightarrow> error + GeneratedChar" where
  "glyphOf canvas options ch =
     (let glyphRenderWidth = width options in
      if list_all isWhiteSpace ch \<and> ch \<noteq> [32]
      then (let totalWidth = (if dynamicWidth options then 0
                              else glyphRenderWidth + charSpacing options)
            in if \<not> validArrayLength (height options) \<or> \<not> validArrayLength totalWidth
               then Inl InvalidArrayLength
               else Inr \<lparr>char = ch, ascii = codePointAt0 ch,
                         bitmap = replicate (nat (height options)) (replicate (nat totalWidth) False),
                         bytes = replicate (nat totalWidth) 0\<rparr>)
      else
        (case render canvas ch of
           Inl e \<Rightarrow> Inl e
         | Inr renderedBitmap \<Rightarrow>
             (case (if dynamicWidth options
                    then (if ch = [32]
                          then (let spaceWidth = (if glyphRenderWidth div 2 = 0 then 1
                                                  else glyphRenderWidth div 2)
                                in allFalse (height options) spaceWidth)
                          else (let minX = fst (scanRendered renderedBitmap (height options) glyphRenderWidth);
                                    maxX = snd (scanRendered renderedBitmap (height options) glyphRenderWidth)
                                in if maxX = - 1 then emptyRows (height options)
                                   else Inr (map (\<lambda>row. slice row minX (maxX + 1)) renderedBitmap)))
                    else if charSpacing options > 0
                    then (if \<not> validArrayLength (charSpacing options) then Inl InvalidArrayLength
                          else Inr (map (\<lambda>row. row @ replicate (nat (charSpacing options)) False)
                                      renderedBitmap))
                    else Inr renderedBitmap) of
                Inl e \<Rightarrow> Inl e
              | Inr finalBitmap \<Rightarrow>
                  Inr \<lparr>char = ch, ascii = codePointAt0 ch, bitmap = finalBitmap,
                       bytes = bitmapToBytes finalBitmap (height options)\<rparr>)))"

text \<open>
  In the short circuit with no column the rows are allocated once for each character,
  inside the callback of \<open>map\<close>; with columns, \<open>finalBitmap\<close> and \<open>finalBytes\<close> are
  allocated once, before \<open>map\<close>.
\<close>

definition generateChars ::
  "Canvas \<Rightarrow> FontGeneratorOptions \<Rightarrow> js_string list \<Rightarrow> error + GeneratedChar list" where
  "generateChars canvas options characters =
     (let glyphRenderWidth = width options in
      if glyphRenderWidth \<le> 0
      then (let totalWidth = (if dynamicWidth options then 0 else charSpacing options)
            in if totalWidth \<le> 0
               then foldE (\<lambda>ch generatedChars.
                             case emptyRows (height options) of
                               Inl e \<Rightarrow> Inl e
                             | Inr rows \<Rightarrow>
                                 Inr (generatedChars @
                                      [\<lparr>char = ch, ascii = codePointAt0 ch, bitmap = rows,
                                        bytes = []\<rparr>]))
                      characters []
               else (case allFalse (height options) totalWidth of
                       Inl e \<Rightarrow> Inl e
                     | Inr finalBitmap \<Rightarrow>
                         if \<not> validArrayLength totalWidth then Inl InvalidArrayLength
                         else Inr (map (\<lambda>ch. \<lparr>char = ch, ascii = codePointAt0 ch,
                                                bitmap = finalBitmap,
                                                bytes = replicate (nat totalWidth) 0\<rparr>) characters)))
      else if \<not> contextAvailable canvas then Inl NoCanvasContext
      else foldE (\<lambda>ch generatedChars.
                    case glyphOf canvas options ch of
                      Inl e \<Rightarrow> Inl e
                    | Inr g \<Rightarrow> Inr (generatedChars @ [g]))
             characters [])"

section \<open>The invariant of a glyph record\<close>

text \<open>
  The data model asks of a record of a font of height \<open>ht\<close> that \<open>bytes.length\<close> is
  \<open>bitmap[0].length\<close> (0 when there is no first row) and that no byte has a set bit at a
  position \<open>\<ge> ht\<close>, which for an integer is \<open>0 \<le> b < 2 ^ ht\<close>. The converters
  work on a record whose bitmap has a first row and whose rows all have the length of \<open>bytes\<close>.
\<close>

definition glyphInvariant :: "int \<Rightarrow> GeneratedChar \<Rightarrow> bool" where
  "glyphInvariant ht g =
     (length (bytes g) = row0_width (bitmap g)
      \<and> list_all (\<lambda>b. 0 \<le> b \<and> b < 2 ^ nat ht) (bytes g))"

definition rectangular :: "GeneratedChar \<Rightarrow> bool" where
  "rectangular g = (bitmap g \<noteq> [] \<and> list_all (\<lambda>row. length row = length (bytes g)) (bitmap g))"

text \<open>What the import gives: a rectangular record whose bytes are values of the data array.\<close>

definition imported :: "int list \<Rightarrow> GeneratedChar \<Rightarrow> bool" where
  "imported dataBytes g =
     (rectangular g \<and> length (bytes g) = row0_width (bitmap g) \<and> set (bytes g) \<subseteq> set dataBytes)"

section \<open>Properties of the codec\<close>

subsection \<open>Bit operators on small values\<close>

lemma foldE_append: "foldE f (xs @ ys) s = (case foldE f xs s of Inl e \<Rightarrow> Inl e | Inr s' \<Rightarrow> foldE f ys s')"
  by (induction xs arbitrary: s) (auto split: sum.splits)

lemma bit_toInt32: "bit (toInt32 x) n = bit x (min 31 n)"
  by (simp add: toInt32_def bit_signed_take_bit_iff)

lemma js_test_bit:
  assumes "0 \<le> k" "k < 32"
  shows "(js_and (js_sar byte k) 1 \<noteq> 0) = bit byte (nat k)"
proof -
  have k: "nat (k mod 32) = nat k" using assms by simp
  have "toInt32 1 = 1" by (simp add: toInt32_def)
  then have "js_and (js_sar byte k) 1 = toInt32 (drop_bit (nat k) (toInt32 byte)) AND 1"
    by (simp add: js_and_def js_sar_def k)
  also have "\<dots> \<noteq> 0 \<longleftrightarrow> bit (toInt32 (drop_bit (nat k) (toInt32 byte))) 0"
    by (simp add: and_one_eq bit_0 mod2_eq_if)
  also have "\<dots> \<longleftrightarrow> bit byte (nat k)"
  proof -
    have "min 31 (nat k) = nat k" using assms by simp
    then show ?thesis by (simp add: bit_toInt32 bit_drop_bit_eq)
  qed
  finally show ?thesis .
qed

lemma bit_js_or: "bit (js_or a b) n = (bit a (min 31 n) \<or> bit b (min 31 n))"
  by (simp add: js_or_def bit_or_iff bit_toInt32)

lemma bit_js_shl1:
  assumes "0 \<le> k" "k < 31"
  shows "bit (js_shl 1 k) n = (n = nat k)"
proof -
  have k: "nat (k mod 32) = nat k" using assms by simp
  have "toInt32 1 = 1" by (simp add: toInt32_def)
  then have "js_shl 1 k = toInt32 (push_bit (nat k) 1)" by (simp add: js_shl_def k)
  then show ?thesis using assms
    by (auto simp: bit_toInt32 bit_exp_iff min_def)
qed


subsection \<open>What the decoder computes\<close>

lemma setPixel_fold_rows:
  assumes "n \<le> length bm" "\<forall>r<length bm. length (bm ! r) = w" "c < w"
  shows "\<exists>bm'. foldE (\<lambda>r b. if P r then setPixel b r c else Inr b) [0..<n] bm = Inr bm'
          \<and> length bm' = length bm \<and> (\<forall>r<length bm. length (bm' ! r) = w)
          \<and> (\<forall>r<length bm. \<forall>c'<w. bm' ! r ! c' = (bm ! r ! c' \<or> (c' = c \<and> r < n \<and> P r)))"
  using assms(1)
proof (induction n)
  case 0
  then show ?case using assms by simp
next
  case (Suc n)
  then obtain bm' where a: "foldE (\<lambda>r b. if P r then setPixel b r c else Inr b) [0..<n] bm = Inr bm'"
    and l: "length bm' = length bm" and w: "\<forall>r<length bm. length (bm' ! r) = w"
    and v: "\<forall>r<length bm. \<forall>c'<w. bm' ! r ! c' = (bm ! r ! c' \<or> (c' = c \<and> r < n \<and> P r))"
    by auto
  have n: "n < length bm" using Suc.prems by simp
  show ?case
  proof (cases "P n")
    case False
    then show ?thesis using a l w v by (auto simp: foldE_append less_Suc_eq)
  next
    case True
    let ?b = "bm'[n := (bm' ! n)[c := True]]"
    have s: "setPixel bm' n c = Inr ?b" using n l w assms(3) by (simp add: setPixel_def)
    have "foldE (\<lambda>r b. if P r then setPixel b r c else Inr b) [0..<Suc n] bm = Inr ?b"
      using a s True by (simp add: foldE_append)
    moreover have "length ?b = length bm" using l by simp
    moreover have "\<forall>r<length bm. length (?b ! r) = w" using l w n by (auto simp: nth_list_update)
    moreover have "\<forall>r<length bm. \<forall>c'<w. ?b ! r ! c' = (bm ! r ! c' \<or> (c' = c \<and> r < Suc n \<and> P r))"
    proof (intro allI impI)
      fix r c' assume r: "r < length bm" and c': "c' < w"
      have lr: "length (bm' ! n) = w" using w n by simp
      show "?b ! r ! c' = (bm ! r ! c' \<or> (c' = c \<and> r < Suc n \<and> P r))"
      proof (cases "r = n")
        case True
        then have "?b ! r ! c' = (if c' = c then True else bm' ! n ! c')"
          using n l lr c' assms(3) by (simp add: nth_list_update)
        then show ?thesis using True v r c' \<open>P n\<close> by auto
      next
        case False
        then have "?b ! r ! c' = bm' ! r ! c'" by simp
        then show ?thesis using False v r c' by (auto simp: less_Suc_eq)
      qed
    qed
    ultimately show ?thesis by blast
  qed
qed

lemma setPixel_fold_cols:
  assumes "n \<le> w" "\<forall>r<length bm. length (bm ! r) = w"
  shows "\<exists>bm'. foldE (\<lambda>c b. foldE (\<lambda>r b. if P r c then setPixel b r c else Inr b) [0..<length bm] b) [0..<n] bm = Inr bm'
          \<and> length bm' = length bm \<and> (\<forall>r<length bm. length (bm' ! r) = w)
          \<and> (\<forall>r<length bm. \<forall>c'<w. bm' ! r ! c' = (bm ! r ! c' \<or> (c' < n \<and> P r c')))"
  using assms(1)
proof (induction n)
  case 0
  then show ?case using assms by simp
next
  case (Suc n)
  then obtain bm' where a: "foldE (\<lambda>c b. foldE (\<lambda>r b. if P r c then setPixel b r c else Inr b) [0..<length bm] b) [0..<n] bm = Inr bm'"
    and l: "length bm' = length bm" and w: "\<forall>r<length bm. length (bm' ! r) = w"
    and v: "\<forall>r<length bm. \<forall>c'<w. bm' ! r ! c' = (bm ! r ! c' \<or> (c' < n \<and> P r c'))"
    by auto
  have n: "n < w" using Suc.prems by simp
  from setPixel_fold_rows [of "length bm" bm' w n "\<lambda>r. P r n"] l w n
  obtain b2 where a2: "foldE (\<lambda>r b. if P r n then setPixel b r n else Inr b) [0..<length bm] bm' = Inr b2"
    and l2: "length b2 = length bm" and w2: "\<forall>r<length bm. length (b2 ! r) = w"
    and v2: "\<forall>r<length bm. \<forall>c'<w. b2 ! r ! c' = (bm' ! r ! c' \<or> (c' = n \<and> P r n))"
    by auto
  have "foldE (\<lambda>c b. foldE (\<lambda>r b. if P r c then setPixel b r c else Inr b) [0..<length bm] b) [0..<Suc n] bm = Inr b2"
    using a a2 by (simp add: foldE_append)
  moreover have "\<forall>r<length bm. \<forall>c'<w. b2 ! r ! c' = (bm ! r ! c' \<or> (c' < Suc n \<and> P r c'))"
    using v v2 by (auto simp: less_Suc_eq)
  ultimately show ?case using l2 w2 by blast
qed

lemma bytesToBitmap_decoded:
  assumes "validArrayLength wd" "ht \<le> 8"
  shows "bytesToBitmap bs wd ht =
     Inr (map (\<lambda>r. map (\<lambda>c. bit (byteAt bs c) (nat (ht - 1 - int r))) [0..<nat wd])
            [0..<nat ht])"
proof -
  let ?h = "nat ht" and ?w = "nat wd"
  let ?bm0 = "replicate ?h (replicate ?w False)"
  let ?P = "\<lambda>r c. js_and (js_sar (byteAt bs c) (ht - 1 - int r)) 1 \<noteq> 0"
  let ?res = "map (\<lambda>r. map (\<lambda>c. bit (byteAt bs c) (nat (ht - 1 - int r))) [0..<?w]) [0..<?h]"
  have eq: "bytesToBitmap bs wd ht
      = foldE (\<lambda>c b. foldE (\<lambda>r b. if ?P r c then setPixel b r c else Inr b) [0..<length ?bm0] b) [0..<?w] ?bm0"
    using assms by (simp add: bytesToBitmap_def allFalse_def decodeColumn_def [abs_def])
  have "\<forall>r<length ?bm0. length (?bm0 ! r) = ?w" by simp
  from setPixel_fold_cols [OF order_refl this, of ?P]
  obtain bm' where a: "foldE (\<lambda>c b. foldE (\<lambda>r b. if ?P r c then setPixel b r c else Inr b) [0..<length ?bm0] b) [0..<?w] ?bm0 = Inr bm'"
    and l: "length bm' = ?h" and w: "\<forall>r<?h. length (bm' ! r) = ?w"
    and v: "\<forall>r<?h. \<forall>c'<?w. bm' ! r ! c' = ?P r c'"
    by auto
  have P: "?P r c = bit (byteAt bs c) (nat (ht - 1 - int r))" if "r < ?h" for r c
    using that assms by (intro js_test_bit) auto
  have "bm' = ?res"
  proof (rule nth_equalityI)
    show "length bm' = length ?res" using l by simp
  next
    fix r assume "r < length bm'"
    then have r: "r < ?h" using l by simp
    show "bm' ! r = ?res ! r"
    proof (rule nth_equalityI)
      show "length (bm' ! r) = length (?res ! r)" using r w by simp
    next
      fix c assume "c < length (bm' ! r)"
      then have "c < ?w" using r w by simp
      then show "bm' ! r ! c = ?res ! r ! c" using r v P by simp
    qed
  qed
  then show ?thesis using eq a by simp
qed


subsection \<open>What the encoder computes\<close>

lemma fold_snoc_map: "fold (\<lambda>c bs. bs @ [f c]) xs acc = acc @ map f xs"
  by (induction xs arbitrary: acc) auto

lemma bitmapToBytes_map: "bitmapToBytes bm ht = map (encodeColumn bm ht) [0..<row0_width bm]"
  by (simp add: bitmapToBytes_def fold_snoc_map)

lemma bit_encode_fold:
  assumes "\<forall>r\<in>set rs. int r < ht" "ht \<le> 31" "\<forall>m\<ge>31. \<not> bit acc m"
  shows "bit (fold (\<lambda>r byte. if px bm r c then js_or byte (js_shl 1 (ht - 1 - int r)) else byte) rs acc) n
     = (bit acc n \<or> (\<exists>r\<in>set rs. px bm r c \<and> n = nat (ht - 1 - int r)))"
  using assms
proof (induction rs arbitrary: acc)
  case Nil
  then show ?case by simp
next
  case (Cons r rs)
  have k: "0 \<le> ht - 1 - int r" "ht - 1 - int r < 31" using Cons.prems by auto
  show ?case
  proof (cases "px bm r c")
    case False
    then show ?thesis using Cons by auto
  next
    case True
    let ?acc = "js_or acc (js_shl 1 (ht - 1 - int r))"
    have b: "bit ?acc m = (bit acc m \<or> m = nat (ht - 1 - int r))" for m
    proof (cases "m < 31")
      case True
      then show ?thesis using k by (simp add: bit_js_or bit_js_shl1)
    next
      case False
      then have "min 31 m = 31" by simp
      then show ?thesis using k False Cons.prems(3) by (auto simp: bit_js_or bit_js_shl1)
    qed
    have hi: "\<forall>m\<ge>31. \<not> bit ?acc m" using b k Cons.prems(3) by auto
    have "bit (fold (\<lambda>r byte. if px bm r c then js_or byte (js_shl 1 (ht - 1 - int r)) else byte) rs ?acc) n
       = (bit ?acc n \<or> (\<exists>r\<in>set rs. px bm r c \<and> n = nat (ht - 1 - int r)))"
      using Cons.prems hi by (intro Cons.IH) auto
    then show ?thesis using True b by auto
  qed
qed

lemma bit_encodeColumn:
  assumes "ht \<le> 31"
  shows "bit (encodeColumn bm ht c) n = (\<exists>r<nat ht. px bm r c \<and> n = nat (ht - 1 - int r))"
proof -
  have "\<forall>r\<in>set [0..<nat ht]. int r < ht" by auto
  from bit_encode_fold [OF this assms, of 0 bm c n] show ?thesis
    by (auto simp: encodeColumn_def)
qed

lemma encodeColumn_sum:
  assumes "ht \<le> 31"
  shows "encodeColumn bm ht c = (\<Sum>r<nat ht. if px bm r c then 2 ^ (nat ht - 1 - r) else 0)"
proof -
  let ?f = "\<lambda>r byte. if px bm r c then js_or byte (js_shl 1 (ht - 1 - int r)) else byte"
  have "n \<le> nat ht \<Longrightarrow>
      fold ?f [0..<n] 0 = (\<Sum>r<n. if px bm r c then 2 ^ (nat ht - 1 - r) else 0)" for n
  proof (induction n)
    case 0
    then show ?case by simp
  next
    case (Suc n)
    let ?S = "fold ?f [0..<n] 0"
    let ?k = "nat (ht - 1 - int n)"
    have S: "?S = (\<Sum>r<n. if px bm r c then 2 ^ (nat ht - 1 - r) else 0)"
      using Suc by simp
    have rs: "\<forall>r\<in>set [0..<n]. int r < ht" using Suc.prems by auto
    have bS: "bit ?S m = (\<exists>r<n. px bm r c \<and> m = nat (ht - 1 - int r))" for m
      using bit_encode_fold [OF rs assms, of 0 bm c m] by auto
    have k: "0 \<le> ht - 1 - int n" "ht - 1 - int n < 31" "?k = nat ht - 1 - n"
      using Suc.prems assms by auto
    show ?case
    proof (cases "px bm n c")
      case False
      then show ?thesis using S by simp
    next
      case True
      have nk: "\<not> bit ?S ?k" using bS Suc.prems by auto
      have hi: "\<not> bit ?S m" if "31 \<le> m" for m using bS that assms by auto
      have "js_or ?S (js_shl 1 (ht - 1 - int n)) = ?S OR 2 ^ ?k"
      proof (rule bit_eqI)
        fix m
        show "bit (js_or ?S (js_shl 1 (ht - 1 - int n))) m = bit (?S OR 2 ^ ?k) m"
        proof (cases "m < 31")
          case True
          then show ?thesis using k by (simp add: bit_js_or bit_js_shl1 bit_or_iff bit_exp_iff)
        next
          case False
          then have "min 31 m = 31" by simp
          then show ?thesis using k False hi [of m] hi [of 31]
            by (auto simp: bit_js_or bit_js_shl1 bit_or_iff bit_exp_iff)
        qed
      qed
      also have "\<dots> = ?S + 2 ^ ?k"
      proof (rule disjunctive_add_eq_or [symmetric], rule bit_eqI)
        fix m show "bit (?S AND 2 ^ ?k) m = bit (0::int) m"
          using nk by (auto simp: bit_and_iff bit_exp_iff)
      qed
      finally show ?thesis using True S k by simp
    qed
  qed
  from this [of "nat ht"] show ?thesis by (simp add: encodeColumn_def)
qed


subsection \<open>Round trip and totality of the decoder\<close>

lemma byteAt_pad: "byteAt (bs @ replicate k 0) c = byteAt bs c"
  by (simp add: byteAt_def nth_append)

text \<open>
  Claim C1. For a rectangular bitmap of \<open>h\<close> rows and \<open>w\<close> columns with
  \<open>1 \<le> h \<le> 8\<close>, decoding the encoded column bytes gives the bitmap back, and the
  byte of column \<open>c\<close> is the sum over the rows \<open>r\<close> of \<open>bit(r,c) << (h-1-r)\<close>. A row
  is a JavaScript array, so its length \<open>w\<close> is below \<open>2^32\<close>; a list of the model has no
  such bound, and the theorem states it.
\<close>

theorem bytesToBitmap_bitmapToBytes_roundtrip:
  assumes "1 \<le> length bm" and "length bm \<le> 8" and "\<forall>row\<in>set bm. length row = w"
    and "w < 2 ^ 32"
  shows "bytesToBitmap (bitmapToBytes bm (int (length bm))) (int w) (int (length bm)) = Inr bm
       \<and> (\<forall>c<w. bitmapToBytes bm (int (length bm)) ! c
                  = (\<Sum>r<length bm. if bm ! r ! c then 2 ^ (length bm - 1 - r) else 0))"
proof -
  let ?h = "int (length bm)"
  have w0: "row0_width bm = w" using assms(1,3) by (cases bm) (auto simp: row0_width_def)
  have px: "px bm r c = bm ! r ! c" if "r < length bm" "c < w" for r c
    using that assms(3) by (simp add: px_def)
  have enc: "byteAt (bitmapToBytes bm ?h) c = encodeColumn bm ?h c" if "c < w" for c
    using that w0 by (simp add: byteAt_def bitmapToBytes_map)
  have h31: "?h \<le> 31" using assms(2) by simp
  have cell: "bit (byteAt (bitmapToBytes bm ?h) c) (nat (?h - 1 - int r)) = bm ! r ! c"
    if "r < length bm" "c < w" for r c
  proof -
    have "bit (encodeColumn bm ?h c) (nat (?h - 1 - int r))
        = (\<exists>r'<length bm. px bm r' c \<and> nat (?h - 1 - int r) = nat (?h - 1 - int r'))"
      using bit_encodeColumn [OF h31, of bm c] by simp
    also have "\<dots> = (\<exists>r'<length bm. px bm r' c \<and> r' = r)"
    proof -
      have "(nat (?h - 1 - int r) = nat (?h - 1 - int r')) = (r' = r)" if "r' < length bm" for r'
        using that \<open>r < length bm\<close> by arith
      then show ?thesis by auto
    qed
    also have "\<dots> = bm ! r ! c" using that px by auto
    finally show ?thesis using that enc by simp
  qed
  have "bytesToBitmap (bitmapToBytes bm ?h) (int w) ?h
      = Inr (map (\<lambda>r. map (\<lambda>c. bit (byteAt (bitmapToBytes bm ?h) c) (nat (?h - 1 - int r))) [0..<w])
            [0..<length bm])"
  proof -
    have "int w < 2 ^ 32" using assms(4) by (metis of_nat_less_iff of_nat_numeral of_nat_power)
    then have "validArrayLength (int w)" by (simp add: validArrayLength_def)
    from bytesToBitmap_decoded [OF this, of ?h "bitmapToBytes bm ?h"] assms(2) show ?thesis by simp
  qed
  also have "map (\<lambda>r. map (\<lambda>c. bit (byteAt (bitmapToBytes bm ?h) c) (nat (?h - 1 - int r))) [0..<w])
            [0..<length bm] = bm"
    using assms(3) cell by (intro nth_equalityI) (auto simp: )
  finally have rt: "bytesToBitmap (bitmapToBytes bm ?h) (int w) ?h = Inr bm" .
  have "bitmapToBytes bm ?h ! c = (\<Sum>r<length bm. if bm ! r ! c then 2 ^ (length bm - 1 - r) else 0)"
    if "c < w" for c
  proof -
    have "bitmapToBytes bm ?h ! c = encodeColumn bm ?h c"
      using that w0 by (simp add: bitmapToBytes_map)
    also have "\<dots> = (\<Sum>r<length bm. if px bm r c then 2 ^ (length bm - 1 - r) else 0)"
      using encodeColumn_sum [OF h31, of bm c] by (simp cong: if_cong)
    also have "\<dots> = (\<Sum>r<length bm. if bm ! r ! c then 2 ^ (length bm - 1 - r) else 0)"
      using that px by (intro sum.cong) auto
    finally show ?thesis .
  qed
  with rt show ?thesis by blast
qed

theorem bytesToBitmap_bitmapToBytes_roundtrip_witness:
  "bytesToBitmap (bitmapToBytes [[True, False, True], [False, False, True]] 2) 3 2
     = Inr [[True, False, True], [False, False, True]]
   \<and> bitmapToBytes [[True, False, True], [False, False, True]] 2 = [2, 0, 3]"
proof -
  let ?bm = "[[True, False, True], [False, False, True]]"
  have h: "1 \<le> length ?bm" "length ?bm \<le> 8" "\<forall>row\<in>set ?bm. length row = 3"
    "(3::nat) < 2 ^ 32" by simp_all
  from bytesToBitmap_bitmapToBytes_roundtrip [OF h]
  have "bytesToBitmap (bitmapToBytes ?bm 2) 3 2 = Inr ?bm" by simp
  moreover have "bitmapToBytes ?bm 2 = [2, 0, 3]"
    by (simp add: bitmapToBytes_def row0_width_def encodeColumn_def px_def js_or_def js_shl_def
        toInt32_def upt_conv_Cons)
  ultimately show ?thesis by simp
qed

text \<open>
  Claim C10 says that \<open>bytesToBitmap\<close> returns a matrix for every height in \<open>[1,8]\<close> and
  every width \<open>\<ge> 0\<close>. The rows are allocated with \<open>new Array(width)\<close>, which is a
  RangeError from the width \<open>2^32\<close> on.
\<close>

theorem bytesToBitmap_total_counterexample:
  "bytesToBitmap [] 4294967296 1 = Inl InvalidArrayLength"
  by (simp add: bytesToBitmap_def allFalse_def validArrayLength_def)

text \<open>
  Claim C10, amended. For every height \<open>ht\<close> in \<open>[1,8]\<close>, every width \<open>wd\<close> with
  \<open>0 \<le> wd < 2^32\<close> and every list of bytes, \<open>bytesToBitmap\<close> returns a matrix of exactly
  \<open>ht\<close> rows and \<open>wd\<close> columns; every store stays inside that matrix (the result is not
  \<open>BadWrite\<close>), and a column whose byte is missing is decoded as if the byte were 0, that
  is as an all-false column.
\<close>

theorem bytesToBitmap_total:
  assumes "1 \<le> ht" and "ht \<le> 8" and "0 \<le> wd" and "wd < 2 ^ 32"
  shows "\<exists>bm. bytesToBitmap bs wd ht = Inr bm
           \<and> length bm = nat ht \<and> (\<forall>row\<in>set bm. length row = nat wd)
           \<and> (\<forall>c. length bs \<le> c \<and> c < nat wd \<longrightarrow> (\<forall>r<nat ht. \<not> bm ! r ! c))
           \<and> bytesToBitmap (bs @ replicate (nat wd - length bs) 0) wd ht = Inr bm"
proof -
  let ?bm = "map (\<lambda>r. map (\<lambda>c. bit (byteAt bs c) (nat (ht - 1 - int r))) [0..<nat wd])
            [0..<nat ht]"
  have v: "validArrayLength wd" using assms(3,4) by (simp add: validArrayLength_def)
  have 1: "bytesToBitmap bs wd ht = Inr ?bm"
    using v assms(2) by (simp add: bytesToBitmap_decoded)
  have 2: "bytesToBitmap (bs @ replicate (nat wd - length bs) 0) wd ht = Inr ?bm"
    using v assms(2) by (simp add: bytesToBitmap_decoded byteAt_pad)
  have 3: "\<forall>c. length bs \<le> c \<and> c < nat wd \<longrightarrow> (\<forall>r<nat ht. \<not> ?bm ! r ! c)"
    by (simp add: byteAt_def)
  have 4: "length ?bm = nat ht \<and> (\<forall>row\<in>set ?bm. length row = nat wd)" by auto
  show ?thesis using 1 2 3 4 by blast
qed

theorem bytesToBitmap_total_witness:
  "\<exists>bm. bytesToBitmap [5] 3 3 = Inr bm \<and> length bm = 3 \<and> (\<forall>row\<in>set bm. length row = 3)
      \<and> (\<forall>c. 1 \<le> c \<and> c < 3 \<longrightarrow> (\<forall>r<3. \<not> bm ! r ! c))
      \<and> bytesToBitmap [5, 0, 0] 3 3 = Inr bm"
  using bytesToBitmap_total [of 3 3 "[5]"] by (simp add: numeral_3_eq_3)

section \<open>Properties of the array parser\<close>

subsection \<open>Character literals\<close>

lemma tokenValue_escape:
  "tokenValue [quote, backslash, c, quote] =
     Some (if c = 110 then 10 else if c = 114 then 13 else if c = 116 then 9
           else if c = 39 then 39 else if c = 34 then 34 else if c = 92 then 92
           else if c = 48 then 0 else int c)"
  by (simp add: tokenValue_def escapeCode_def substring_def charCodeAt_def quote_def backslash_def Let_def)

lemma tokenValue_plain:
  "c \<noteq> quote \<Longrightarrow> tokenValue [quote, c, quote] = Some (int c)"
  by (simp add: tokenValue_def substring_def charCodeAt_def quote_def backslash_def Let_def)

lemma matchToken_quoted_short:
  assumes "matchToken s = Some (tok, rest)" "take 1 tok = [quote]"
  shows "length tok \<le> 4"
proof -
  have hd: "hd tok = 39" using assms(2) by (cases tok) (auto simp: quote_def)
  have dig: "hd (takeWhile isDigit xs) \<noteq> 39" if "takeWhile isDigit xs \<noteq> []" for xs
  proof -
    from that have "hd (takeWhile isDigit xs) \<in> set (takeWhile isDigit xs)" by simp
    then have "isDigit (hd (takeWhile isDigit xs))" by (rule set_takeWhileD [THEN conjunct2])
    then show ?thesis by (auto simp: isDigit_def)
  qed
  consider "matchHex s = Some (tok, rest)" | "matchBin s = Some (tok, rest)"
    | "matchDec s = Some (tok, rest)" | "matchCharLit s = Some (tok, rest)"
    using assms(1) by (auto simp: matchToken_def split: option.splits)
  then show ?thesis
  proof cases
    case 1
    then have "hd tok = 48" by (auto simp: matchHex_def split: if_splits)
    then show ?thesis using hd by simp
  next
    case 2
    then have "hd tok = 48" by (auto simp: matchBin_def split: if_splits)
    then show ?thesis using hd by simp
  next
    case 3
    then have "hd tok = 45 \<or> (\<exists>xs. takeWhile isDigit xs \<noteq> [] \<and> hd tok = hd (takeWhile isDigit xs))"
      by (auto simp: matchDec_def Let_def split: if_splits)
    then show ?thesis using hd dig by auto
  next
    case 4
    then show ?thesis by (auto simp: matchCharLit_def split: if_splits)
  qed
qed

lemma tokenize_quoted_short:
  "tok \<in> set (tokenize s) \<Longrightarrow> take 1 tok = [quote] \<Longrightarrow> length tok \<le> 4"
proof (induction s rule: tokenize.induct)
  case 1
  then show ?case by simp
next
  case (2 c cs)
  show ?case
  proof (cases "matchToken (c # cs)")
    case None
    then show ?thesis using 2 by simp
  next
    case (Some m)
    obtain t rest where m: "m = (t, rest)" by (cases m)
    show ?thesis
    proof (cases "tok = t")
      case True
      then show ?thesis using Some m "2.prems"(2) matchToken_quoted_short by blast
    next
      case False
      then have "tok \<in> set (tokenize rest)" using "2.prems"(1) Some m by simp
      then show ?thesis using "2.IH"(2) [OF Some m [symmetric]] "2.prems"(2) by simp
    qed
  qed
qed

subsection \<open>The examples\<close>

text \<open>
  Claim C4. The three example equations of \<open>parseArrayString\<close>: the braces with a block
  comment give \<open>[26, 43, 60]\<close>; \<open>buf[] = {'A','\n',10}\<close>, with the two-character escape
  backslash-n inside the literal, gives \<open>[65, 10, 10]\<close>; the empty text gives \<open>[]\<close>.
\<close>

theorem parseArrayString_examples:
  "parseArrayString (str ''{0x1A, 0x2B, /* x */ 0x3C}'') = [26, 43, 60]
   \<and> parseArrayString (str ''buf[] = {'' @ [quote] @ str ''A'' @ [quote] @ str '','' @
         [quote, backslash] @ str ''n'' @ [quote] @ str '',10}'') = [65, 10, 10]
   \<and> parseArrayString (str '''') = []"
  by code_simp

text \<open>
  Claim C5. The claim asks that a character literal with a hex escape \<open>\xNN\<close> yields the
  value of \<open>NN\<close> in base 16, so that the six characters \<open>'\x41'\<close> parse to \<open>[65]\<close>.
  The token expression admits one character only after the backslash: a quoted token has
  at most four characters (\<open>tokenize_quoted_short\<close>), so the branch of \<open>escapeCode\<close> that
  calls \<open>parseInt16\<close> is never reached. On this input no literal is matched, the digits
  \<open>41\<close> are read as a decimal token, and the result is \<open>[41]\<close>. The other escapes
  are decoded as the claim says (\<open>tokenValue_escape\<close>).
\<close>

theorem parseArrayString_hex_escape_not_decoded:
  "tokenize ([quote, backslash] @ str ''x41'' @ [quote]) = [str ''41'']
   \<and> parseArrayString ([quote, backslash] @ str ''x41'' @ [quote]) = [41]"
  by code_simp

section \<open>Properties of the import\<close>

lemma foldE_upt_fails:
  assumes "i < n" "foldE f [0..<i] s = Inr s'" "f i s' = Inl e"
  shows "foldE f [0..<n] s = Inl e"
proof -
  have "[0..<n] = [0..<i] @ i # [Suc i..<n]"
    using assms(1) by (metis le_add2 less_imp_add_positive upt_add_eq_append upt_conv_Cons zero_le add.commute)
  then show ?thesis using assms(2,3) by (simp add: foldE_append)
qed

lemma dynamicStep_passes:
  assumes "ht \<le> 8" "validArrayLength (widths ! i)"
    "offsets ! i + widths ! i \<le> int (length dataBytes)"
  shows "\<exists>st'. dynamicStep uniq dataBytes widths offsets ht i st = Inr st'"
  using assms by (simp add: dynamicStep_def Let_def bytesToBitmap_decoded)

lemma dynamic_loop_passes:
  assumes "ht \<le> 8"
    "\<forall>j<i. validArrayLength (widths ! j) \<and> offsets ! j + widths ! j \<le> int (length dataBytes)"
  shows "\<exists>st'. foldE (dynamicStep uniq dataBytes widths offsets ht) [0..<i] st = Inr st'"
  using assms(2)
proof (induction i)
  case 0
  then show ?case by simp
next
  case (Suc i)
  then obtain st1 where 1: "foldE (dynamicStep uniq dataBytes widths offsets ht) [0..<i] st = Inr st1"
    by auto
  from Suc.prems have "validArrayLength (widths ! i)"
    "offsets ! i + widths ! i \<le> int (length dataBytes)" by auto
  from dynamicStep_passes [OF assms(1) this] obtain st2 where
    "dynamicStep uniq dataBytes widths offsets ht i st1 = Inr st2" by blast
  with 1 show ?case by (simp add: foldE_append)
qed

text \<open>
  Claim C6 says that, for each character \<open>i\<close>, the import fails with the out-of-bounds
  error when \<open>offsets[i] + widths[i]\<close> exceeds the length of the data. The characters are
  processed in order, and a character with a negative width and a sum inside the data
  ends the import in the allocation of its bitmap: with widths \<open>{-1, 5}\<close>, offsets
  \<open>{0, 0}\<close> and data \<open>{1, 2}\<close>, the second character exceeds the data (\<open>0 + 5 > 2\<close>), and the
  import fails with the RangeError of \<open>new Array(-1)\<close> for the first.
\<close>

theorem parseImportedData_dynamic_errors_counterexample:
  "parseArrayString (str ''{1, 2}'') = [1, 2]
   \<and> parseArrayString (str ''{-1, 5}'') = [- 1, 5]
   \<and> parseArrayString (str ''{0, 0}'') = [0, 0]
   \<and> parseImportedData \<lparr>rawData = str ''{1, 2}'', rawWidths = str ''{-1, 5}'',
         rawOffsets = str ''{0, 0}'', characterSet = str ''AB'', charHeight = 8, charWidth = 0,
         isDynamic = True\<rparr>
       = Inl InvalidArrayLength"
  by code_simp

text \<open>
  Claim C6, amended. In dynamic mode, with a declared height in \<open>[1,8]\<close> (the height is
  checked first) and a non-empty character set: when the lengths of \<open>widths\<close>, \<open>offsets\<close>
  and \<open>uniqueChars\<close> are not all equal, the import fails with the mismatch of array
  lengths (with its message for an empty \<open>widths\<close> when \<open>widths\<close> is empty); and when they
  are equal, it fails with the out-of-bounds error of the character \<open>i\<close> when
  \<open>offsets[i] + widths[i]\<close> exceeds the length of the data and every earlier character
  has a width in \<open>[0, 2^32)\<close> and a slice inside the data. So, when every width is in
  \<open>[0, 2^32)\<close> and some character exceeds the data, the import fails with the
  out-of-bounds error of the first such character.
  The witness holds the example of the claim: \<open>"AB"\<close>, \<open>widths = [1]\<close>, \<open>offsets = [0]\<close>.
\<close>

theorem parseImportedData_dynamic_errors:
  assumes "isDynamic options" and "1 \<le> charHeight options" and "charHeight options \<le> 8"
    and "uniqueChars (characterSet options) = uniq" and "uniq \<noteq> []"
    and "parseArrayString (rawData options) = dataBytes"
    and "parseArrayString (rawWidths options) = widths"
    and "parseArrayString (rawOffsets options) = offsets"
  shows "(\<not> (length widths = length uniq \<and> length offsets = length uniq) \<longrightarrow>
            parseImportedData options = Inl (if widths = [] then WidthsEmpty else ArrayLengthMismatch))
      \<and> (length widths = length uniq \<and> length offsets = length uniq \<longrightarrow>
           (\<forall>i<length uniq.
              (\<forall>j<i. validArrayLength (widths ! j)
                     \<and> offsets ! j + widths ! j \<le> int (length dataBytes))
              \<and> offsets ! i + widths ! i > int (length dataBytes)
              \<longrightarrow> parseImportedData options = Inl (OutOfBounds i)))
      \<and> (length widths = length uniq \<and> length offsets = length uniq
           \<and> (\<forall>j<length uniq. validArrayLength (widths ! j))
           \<and> (\<exists>i<length uniq. offsets ! i + widths ! i > int (length dataBytes)) \<longrightarrow>
           (\<exists>k<length uniq. offsets ! k + widths ! k > int (length dataBytes)
               \<and> parseImportedData options = Inl (OutOfBounds k)))"
proof -
  have first: "\<not> (length widths = length uniq \<and> length offsets = length uniq) \<longrightarrow>
            parseImportedData options = Inl (if widths = [] then WidthsEmpty else ArrayLengthMismatch)"
    using assms by (auto simp: parseImportedData_def Let_def)
  have round: "parseImportedData options = Inl (OutOfBounds i)"
    if len: "length widths = length uniq \<and> length offsets = length uniq" and i: "i < length uniq"
      and h: "(\<forall>j<i. validArrayLength (widths ! j)
                     \<and> offsets ! j + widths ! j \<le> int (length dataBytes))
              \<and> offsets ! i + widths ! i > int (length dataBytes)" for i
  proof -
    let ?step = "dynamicStep uniq dataBytes widths offsets (charHeight options)"
    from dynamic_loop_passes [OF assms(3), of i widths offsets dataBytes uniq "(0, [])"] h
    obtain st where "foldE ?step [0..<i] (0, []) = Inr st" by blast
    moreover have "?step i st = Inl (OutOfBounds i)" using h by (simp add: dynamicStep_def Let_def)
    ultimately have "foldE ?step [0..<length uniq] (0, []) = Inl (OutOfBounds i)"
      using i by (intro foldE_upt_fails)
    then show ?thesis using assms len by (simp add: parseImportedData_def Let_def)
  qed
  have least: "\<exists>k<length uniq. offsets ! k + widths ! k > int (length dataBytes)
               \<and> parseImportedData options = Inl (OutOfBounds k)"
    if len: "length widths = length uniq \<and> length offsets = length uniq"
      and nn: "\<forall>j<length uniq. validArrayLength (widths ! j)"
      and ex: "\<exists>i<length uniq. offsets ! i + widths ! i > int (length dataBytes)"
  proof -
    define k where "k = (LEAST i. i < length uniq \<and> offsets ! i + widths ! i > int (length dataBytes))"
    from ex have "\<exists>i. i < length uniq \<and> offsets ! i + widths ! i > int (length dataBytes)"
      by blast
    then have k: "k < length uniq \<and> offsets ! k + widths ! k > int (length dataBytes)"
      unfolding k_def by (rule LeastI_ex)
    have nl: "\<not> (j < length uniq \<and> offsets ! j + widths ! j > int (length dataBytes))" if "j < k" for j
      using that unfolding k_def by (rule not_less_Least)
    have "validArrayLength (widths ! j) \<and> offsets ! j + widths ! j \<le> int (length dataBytes)"
      if "j < k" for j
    proof -
      have "j < length uniq" using that k by simp
      then show ?thesis using nl [OF that] nn by auto
    qed
    then have "\<forall>j<k. validArrayLength (widths ! j)
        \<and> offsets ! j + widths ! j \<le> int (length dataBytes)"
      by blast
    with round [OF len, of k] k show ?thesis by blast
  qed
  from first round least show ?thesis by blast
qed

theorem parseImportedData_dynamic_errors_witness:
  "parseImportedData \<lparr>rawData = str ''{1, 2}'', rawWidths = str ''{1}'', rawOffsets = str ''{0}'',
       characterSet = str ''AB'', charHeight = 8, charWidth = 0, isDynamic = True\<rparr>
     = Inl ArrayLengthMismatch
   \<and> parseImportedData \<lparr>rawData = str ''{1, 2}'', rawWidths = str ''{}'', rawOffsets = str ''{0, 1}'',
       characterSet = str ''AB'', charHeight = 8, charWidth = 0, isDynamic = True\<rparr>
     = Inl WidthsEmpty
   \<and> parseImportedData \<lparr>rawData = str ''{1, 2}'', rawWidths = str ''{1, 2}'', rawOffsets = str ''{0, 1}'',
       characterSet = str ''AB'', charHeight = 8, charWidth = 0, isDynamic = True\<rparr>
     = Inl (OutOfBounds 1)"
proof -
  let ?o1 = "\<lparr>rawData = str ''{1, 2}'', rawWidths = str ''{1}'', rawOffsets = str ''{0}'',
       characterSet = str ''AB'', charHeight = 8, charWidth = 0, isDynamic = True\<rparr>"
  let ?o2 = "\<lparr>rawData = str ''{1, 2}'', rawWidths = str ''{}'', rawOffsets = str ''{0, 1}'',
       characterSet = str ''AB'', charHeight = 8, charWidth = 0, isDynamic = True\<rparr>"
  let ?o3 = "\<lparr>rawData = str ''{1, 2}'', rawWidths = str ''{1, 2}'', rawOffsets = str ''{0, 1}'',
       characterSet = str ''AB'', charHeight = 8, charWidth = 0, isDynamic = True\<rparr>"
  have u: "uniqueChars (str ''AB'') = [[65], [66]]" by code_simp
  have d: "parseArrayString (str ''{1, 2}'') = [1, 2]" by code_simp
  have w1: "parseArrayString (str ''{1}'') = [1]" by code_simp
  have w2: "parseArrayString (str ''{}'') = []" by code_simp
  have f1: "parseArrayString (str ''{0}'') = [0]" by code_simp
  have f2: "parseArrayString (str ''{0, 1}'') = [0, 1]" by code_simp
  have 1: "parseImportedData ?o1 = Inl ArrayLengthMismatch"
    using parseImportedData_dynamic_errors [of ?o1 "[[65], [66]]" "[1, 2]" "[1]" "[0]"]
    by (simp add: u d w1 f1)
  have 2: "parseImportedData ?o2 = Inl WidthsEmpty"
    using parseImportedData_dynamic_errors [of ?o2 "[[65], [66]]" "[1, 2]" "[]" "[0, 1]"]
    by (simp add: u d w2 f2)
  have 3: "parseImportedData ?o3 = Inl (OutOfBounds 1)"
    using parseImportedData_dynamic_errors [of ?o3 "[[65], [66]]" "[1, 2]" "[1, 2]" "[0, 1]"]
    by (simp add: u d f2 less_Suc_eq validArrayLength_def)
  from 1 2 3 show ?thesis by blast
qed

section \<open>Properties of the format converter\<close>

subsection \<open>Vertical realignment\<close>

lemma findRows_prefix:
  fixes P :: "nat \<Rightarrow> bool"
  defines "f \<equiv> (\<lambda>r (fi, la). if P r then ((if fi = - 1 then int r else fi), int r) else (fi, la :: int))"
  shows "(\<forall>r<n. \<not> P r) \<and> fold f [0..<n] (- 1, - 1) = (- 1, - 1)
       \<or> (\<exists>a b. fold f [0..<n] (- 1, - 1) = (int a, int b) \<and> a \<le> b \<and> b < n \<and> P a \<and> P b
              \<and> (\<forall>r<a. \<not> P r) \<and> (\<forall>r. b < r \<and> r < n \<longrightarrow> \<not> P r))"
proof (induction n)
  case 0
  then show ?case by simp
next
  case (Suc n)
  show ?case
  proof (cases "P n")
    case False
    then have s: "fold f [0..<Suc n] (- 1, - 1) = fold f [0..<n] (- 1, - 1)"
      by (simp add: f_def split: prod.splits)
    from Suc show ?thesis
    proof
      assume "(\<forall>r<n. \<not> P r) \<and> fold f [0..<n] (- 1, - 1) = (- 1, - 1)"
      then show ?thesis using False s by (auto simp: less_Suc_eq)
    next
      assume "\<exists>a b. fold f [0..<n] (- 1, - 1) = (int a, int b) \<and> a \<le> b \<and> b < n \<and> P a \<and> P b
              \<and> (\<forall>r<a. \<not> P r) \<and> (\<forall>r. b < r \<and> r < n \<longrightarrow> \<not> P r)"
      then obtain a b where "fold f [0..<n] (- 1, - 1) = (int a, int b)" "a \<le> b" "b < n" "P a" "P b"
        "\<forall>r<a. \<not> P r" "\<forall>r. b < r \<and> r < n \<longrightarrow> \<not> P r" by blast
      then have "fold f [0..<Suc n] (- 1, - 1) = (int a, int b) \<and> a \<le> b \<and> b < Suc n \<and> P a \<and> P b
              \<and> (\<forall>r<a. \<not> P r) \<and> (\<forall>r. b < r \<and> r < Suc n \<longrightarrow> \<not> P r)"
        using False s by (auto simp: less_Suc_eq)
      then show ?thesis by blast
    qed
  next
    case True
    from Suc show ?thesis
    proof
      assume a: "(\<forall>r<n. \<not> P r) \<and> fold f [0..<n] (- 1, - 1) = (- 1, - 1)"
      then have "fold f [0..<Suc n] (- 1, - 1) = (int n, int n)" using True by (simp add: f_def)
      then have "fold f [0..<Suc n] (- 1, - 1) = (int n, int n) \<and> n \<le> n \<and> n < Suc n \<and> P n \<and> P n
              \<and> (\<forall>r<n. \<not> P r) \<and> (\<forall>r. n < r \<and> r < Suc n \<longrightarrow> \<not> P r)"
        using a True by auto
      then show ?thesis by blast
    next
      assume "\<exists>a b. fold f [0..<n] (- 1, - 1) = (int a, int b) \<and> a \<le> b \<and> b < n \<and> P a \<and> P b
              \<and> (\<forall>r<a. \<not> P r) \<and> (\<forall>r. b < r \<and> r < n \<longrightarrow> \<not> P r)"
      then obtain a b where ab: "fold f [0..<n] (- 1, - 1) = (int a, int b)" "a \<le> b" "b < n" "P a" "P b"
        "\<forall>r<a. \<not> P r" "\<forall>r. b < r \<and> r < n \<longrightarrow> \<not> P r" by blast
      then have "fold f [0..<Suc n] (- 1, - 1) = (int a, int n)" using True by (simp add: f_def)
      then have "fold f [0..<Suc n] (- 1, - 1) = (int a, int n) \<and> a \<le> n \<and> n < Suc n \<and> P a \<and> P n
              \<and> (\<forall>r<a. \<not> P r) \<and> (\<forall>r. n < r \<and> r < Suc n \<longrightarrow> \<not> P r)"
        using ab True by auto
      then show ?thesis by blast
    qed
  qed
qed

lemma findRows_cases:
  "(\<forall>r<length bm. \<not> somePixel (bm ! r)) \<and> findRows bm = (- 1, - 1)
   \<or> (\<exists>a b. findRows bm = (int a, int b) \<and> a \<le> b \<and> b < length bm
         \<and> somePixel (bm ! a) \<and> somePixel (bm ! b)
         \<and> (\<forall>r<a. \<not> somePixel (bm ! r)) \<and> (\<forall>r. b < r \<and> r < length bm \<longrightarrow> \<not> somePixel (bm ! r)))"
  using findRows_prefix [where P = "\<lambda>r. somePixel (bm ! r)" and n = "length bm"]
  unfolding findRows_def by simp

lemma shift_up_fold:
  assumes "m \<le> length nb"
  shows "length (fold (\<lambda>r nb. nb[r - s := bm ! r]) [s..<s + m] nb) = length nb
       \<and> (\<forall>k<length nb. fold (\<lambda>r nb. nb[r - s := bm ! r]) [s..<s + m] nb ! k
              = (if k < m then bm ! (k + s) else nb ! k))"
  using assms
proof (induction m)
  case 0
  then show ?case by simp
next
  case (Suc m)
  then have IH: "length (fold (\<lambda>r nb. nb[r - s := bm ! r]) [s..<s + m] nb) = length nb"
    "\<forall>k<length nb. fold (\<lambda>r nb. nb[r - s := bm ! r]) [s..<s + m] nb ! k
              = (if k < m then bm ! (k + s) else nb ! k)" by auto
  have "fold (\<lambda>r nb. nb[r - s := bm ! r]) [s..<s + Suc m] nb
      = (fold (\<lambda>r nb. nb[r - s := bm ! r]) [s..<s + m] nb)[m := bm ! (s + m)]"
    by simp
  then show ?case using IH Suc.prems by (auto simp: nth_list_update less_Suc_eq add.commute)
qed

lemma shift_down_fold:
  assumes "s + m \<le> length nb"
  shows "length (fold (\<lambda>r nb. nb[r + s := bm ! r]) [0..<m] nb) = length nb
       \<and> (\<forall>k<length nb. fold (\<lambda>r nb. nb[r + s := bm ! r]) [0..<m] nb ! k
              = (if s \<le> k \<and> k < s + m then bm ! (k - s) else nb ! k))"
  using assms
proof (induction m)
  case 0
  then show ?case by auto
next
  case (Suc m)
  then have IH: "length (fold (\<lambda>r nb. nb[r + s := bm ! r]) [0..<m] nb) = length nb"
    "\<forall>k<length nb. fold (\<lambda>r nb. nb[r + s := bm ! r]) [0..<m] nb ! k
              = (if s \<le> k \<and> k < s + m then bm ! (k - s) else nb ! k)" by auto
  have "fold (\<lambda>r nb. nb[r + s := bm ! r]) [0..<Suc m] nb
      = (fold (\<lambda>r nb. nb[r + s := bm ! r]) [0..<m] nb)[m + s := bm ! m]"
    by simp
  then show ?case using IH Suc.prems by (auto simp: nth_list_update less_Suc_eq add.commute)
qed

lemma shift_up:
  assumes "s \<le> length bm"
  shows "fold (\<lambda>r nb. nb[r - s := bm ! r]) [s..<length bm] (replicate (length bm) z)
       = drop s bm @ replicate s z"
proof -
  let ?nb = "replicate (length bm) z"
  have "length bm - s \<le> length ?nb" by simp
  from shift_up_fold [OF this, of s bm] assms
  have l: "length (fold (\<lambda>r nb. nb[r - s := bm ! r]) [s..<length bm] ?nb) = length bm"
    and v: "\<forall>k<length bm. fold (\<lambda>r nb. nb[r - s := bm ! r]) [s..<length bm] ?nb ! k
              = (if k < length bm - s then bm ! (k + s) else z)"
    by auto
  show ?thesis
  proof (rule nth_equalityI)
    show "length (fold (\<lambda>r nb. nb[r - s := bm ! r]) [s..<length bm] ?nb) = length (drop s bm @ replicate s z)"
      using l assms by simp
  next
    fix k assume "k < length (fold (\<lambda>r nb. nb[r - s := bm ! r]) [s..<length bm] ?nb)"
    then have k: "k < length bm" using l by simp
    then show "fold (\<lambda>r nb. nb[r - s := bm ! r]) [s..<length bm] ?nb ! k = (drop s bm @ replicate s z) ! k"
      using v assms by (auto simp: nth_append add.commute)
  qed
qed

lemma shift_down:
  assumes "l < length bm"
  shows "fold (\<lambda>r nb. nb[r + (length bm - 1 - l) := bm ! r]) [0..<Suc l] (replicate (length bm) z)
       = replicate (length bm - 1 - l) z @ take (Suc l) bm"
proof -
  let ?nb = "replicate (length bm) z" and ?s = "length bm - 1 - l"
  have "?s + Suc l \<le> length ?nb" using assms by simp
  from shift_down_fold [OF this, of bm]
  have l: "length (fold (\<lambda>r nb. nb[r + ?s := bm ! r]) [0..<Suc l] ?nb) = length bm"
    and v: "\<forall>k<length bm. fold (\<lambda>r nb. nb[r + ?s := bm ! r]) [0..<Suc l] ?nb ! k
              = (if ?s \<le> k \<and> k < ?s + Suc l then bm ! (k - ?s) else z)"
    by auto
  show ?thesis
  proof (rule nth_equalityI)
    show "length (fold (\<lambda>r nb. nb[r + ?s := bm ! r]) [0..<Suc l] ?nb) = length (replicate ?s z @ take (Suc l) bm)"
      using l assms by simp
  next
    fix k assume "k < length (fold (\<lambda>r nb. nb[r + ?s := bm ! r]) [0..<Suc l] ?nb)"
    then have k: "k < length bm" using l by simp
    then show "fold (\<lambda>r nb. nb[r + ?s := bm ! r]) [0..<Suc l] ?nb ! k = (replicate ?s z @ take (Suc l) bm) ! k"
      using v assms by (auto simp: nth_append)
  qed
qed

lemma alignBitmap_blank:
  assumes "\<forall>row\<in>set bm. \<not> somePixel row"
  shows "alignBitmap bm d = bm"
proof -
  from findRows_cases [of bm] assms have "findRows bm = (- 1, - 1)" by auto
  then show ?thesis by (simp add: alignBitmap_def Let_def)
qed

lemma alignBitmap_Top:
  assumes "f < length bm" "somePixel (bm ! f)" "\<forall>r<f. \<not> somePixel (bm ! r)"
  shows "alignBitmap bm Top
       = (if f = 0 then bm else drop f bm @ replicate f (replicate (row0_width bm) False))"
proof -
  from findRows_cases [of bm] assms obtain a b where
    ab: "findRows bm = (int a, int b)" "somePixel (bm ! a)" "\<forall>r<a. \<not> somePixel (bm ! r)" "a \<le> b" "b < length bm"
    by auto
  have "a = f"
  proof (rule ccontr)
    assume "a \<noteq> f"
    then consider "a < f" | "f < a" by linarith
    then show False using ab assms by cases auto
  qed
  then have "fst (findRows bm) = int f" using ab by simp
  then show ?thesis using assms(1) shift_up [of f bm "replicate (row0_width bm) False"]
    by (auto simp: alignBitmap_def Let_def)
qed

lemma alignBitmap_Bottom:
  assumes "l < length bm" "somePixel (bm ! l)" "\<forall>r. l < r \<and> r < length bm \<longrightarrow> \<not> somePixel (bm ! r)"
  shows "alignBitmap bm Bottom
       = (if l = length bm - 1 then bm
          else replicate (length bm - 1 - l) (replicate (row0_width bm) False) @ take (Suc l) bm)"
proof -
  from findRows_cases [of bm] assms obtain a b where
    ab: "findRows bm = (int a, int b)" "somePixel (bm ! b)" "b < length bm"
      "\<forall>r. b < r \<and> r < length bm \<longrightarrow> \<not> somePixel (bm ! r)"
    by auto
  have "b = l"
  proof (rule ccontr)
    assume "b \<noteq> l"
    then consider "b < l" | "l < b" by linarith
    then show False using ab assms by cases auto
  qed
  then have "findRows bm = (int a, int l)" using ab by simp
  then show ?thesis using assms(1) shift_down [of l bm "replicate (row0_width bm) False"]
    by (auto simp: alignBitmap_def Let_def)
qed

lemma alignBitmap_shape:
  "length (alignBitmap bm d) = length bm
   \<and> ((\<forall>row\<in>set bm. length row = w) \<longrightarrow> (\<forall>row\<in>set (alignBitmap bm d). length row = w))"
proof -
  from findRows_cases [of bm] show ?thesis
  proof
    assume "(\<forall>r<length bm. \<not> somePixel (bm ! r)) \<and> findRows bm = (- 1, - 1)"
    then have "alignBitmap bm d = bm" by (simp add: alignBitmap_def Let_def)
    then show ?thesis by simp
  next
    assume "\<exists>a b. findRows bm = (int a, int b) \<and> a \<le> b \<and> b < length bm
         \<and> somePixel (bm ! a) \<and> somePixel (bm ! b)
         \<and> (\<forall>r<a. \<not> somePixel (bm ! r)) \<and> (\<forall>r. b < r \<and> r < length bm \<longrightarrow> \<not> somePixel (bm ! r))"
    then obtain a b where ab: "a \<le> b" "b < length bm" "somePixel (bm ! a)" "somePixel (bm ! b)"
      "\<forall>r<a. \<not> somePixel (bm ! r)" "\<forall>r. b < r \<and> r < length bm \<longrightarrow> \<not> somePixel (bm ! r)"
      by blast
    have a: "a < length bm" using ab by simp
    have w0: "row0_width bm = w" if "\<forall>row\<in>set bm. length row = w"
      using that a by (cases bm) (auto simp: row0_width_def)
    have sub: "set (drop a bm) \<subseteq> set bm" "set (take (Suc b) bm) \<subseteq> set bm"
      by (auto dest: in_set_dropD in_set_takeD)
    show ?thesis
    proof (cases d)
      case Top
      then have "alignBitmap bm d = (if a = 0 then bm else drop a bm @ replicate a (replicate (row0_width bm) False))"
        using alignBitmap_Top [OF a ab(3) ab(5)] by simp
      then show ?thesis using a w0 sub by (auto split: if_splits)
    next
      case Bottom
      then have "alignBitmap bm d = (if b = length bm - 1 then bm
          else replicate (length bm - 1 - b) (replicate (row0_width bm) False) @ take (Suc b) bm)"
        using alignBitmap_Bottom [OF ab(2) ab(4) ab(6)] by simp
      then show ?thesis using ab(2) w0 sub by (auto split: if_splits)
    qed
  qed
qed

text \<open>
  Claim C9. \<open>alignBitmap\<close> finds the first row \<open>f\<close> and the last row \<open>l\<close> that hold a
  set pixel. With no set pixel the bitmap is returned unchanged, and so it is when the
  glyph already touches the target edge (\<open>f = 0\<close> for the top, \<open>l\<close> the final row for
  the bottom). Otherwise, for the top the rows from \<open>f\<close> on move up to row 0 and \<open>f\<close>
  all-false rows fill the bottom; for the bottom the rows up to \<open>l\<close> move down to the
  final row and all-false rows fill the top. The number of rows is kept, and so is the
  number of columns of a rectangular bitmap.
\<close>

theorem alignBitmap_behaviour:
  "((\<forall>row\<in>set bm. \<not> somePixel row) \<longrightarrow> alignBitmap bm d = bm)
   \<and> (f < length bm \<and> somePixel (bm ! f) \<and> (\<forall>r<f. \<not> somePixel (bm ! r)) \<longrightarrow>
         alignBitmap bm Top
           = (if f = 0 then bm else drop f bm @ replicate f (replicate (row0_width bm) False)))
   \<and> (l < length bm \<and> somePixel (bm ! l)
           \<and> (\<forall>r. l < r \<and> r < length bm \<longrightarrow> \<not> somePixel (bm ! r)) \<longrightarrow>
         alignBitmap bm Bottom
           = (if l = length bm - 1 then bm
              else replicate (length bm - 1 - l) (replicate (row0_width bm) False) @ take (Suc l) bm))
   \<and> length (alignBitmap bm d) = length bm
   \<and> ((\<forall>row\<in>set bm. length row = w) \<longrightarrow> (\<forall>row\<in>set (alignBitmap bm d). length row = w))"
  using alignBitmap_blank [of bm d] alignBitmap_Top [of f bm] alignBitmap_Bottom [of l bm]
    alignBitmap_shape [of bm d w]
  by blast

theorem alignBitmap_behaviour_witness:
  "alignBitmap [[False, False], [True, False], [False, True], [False, False]] Top
     = [[True, False], [False, True], [False, False], [False, False]]
   \<and> alignBitmap [[False, False], [True, False], [False, True], [False, False]] Bottom
     = [[False, False], [False, False], [True, False], [False, True]]
   \<and> alignBitmap [[False, False], [False, False]] Top = [[False, False], [False, False]]
   \<and> alignBitmap [[True, False], [False, False]] Top = [[True, False], [False, False]]
   \<and> alignBitmap [[False, False], [False, True]] Bottom = [[False, False], [False, True]]"
proof -
  let ?bm = "[[False, False], [True, False], [False, True], [False, False]]"
  have p1: "Suc 0 < length ?bm \<and> somePixel (?bm ! Suc 0) \<and> (\<forall>r<Suc 0. \<not> somePixel (?bm ! r))"
    by (simp add: somePixel_def)
  have p2: "2 < length ?bm \<and> somePixel (?bm ! 2) \<and> (\<forall>r. 2 < r \<and> r < length ?bm \<longrightarrow> \<not> somePixel (?bm ! r))"
    by (auto simp: somePixel_def nth_Cons' less_Suc_eq numeral_2_eq_2)
  have 1: "alignBitmap ?bm Top = [[True, False], [False, True], [False, False], [False, False]]"
    using alignBitmap_behaviour [of ?bm Top "Suc 0" 2 2] p1
    by (simp add: row0_width_def)
  have 2: "alignBitmap ?bm Bottom = [[False, False], [False, False], [True, False], [False, True]]"
    using alignBitmap_behaviour [of ?bm Bottom "Suc 0" 2 2] p2
    by (simp add: row0_width_def numeral_2_eq_2)
  have 3: "alignBitmap [[False, False], [False, False]] Top = [[False, False], [False, False]]"
    using alignBitmap_behaviour [of "[[False, False], [False, False]]" Top 0 0 2]
    by (simp add: somePixel_def)
  have 4: "alignBitmap [[True, False], [False, False]] Top = [[True, False], [False, False]]"
    using alignBitmap_behaviour [of "[[True, False], [False, False]]" Top 0 0 2]
    by (simp add: somePixel_def)
  have 5: "alignBitmap [[False, False], [False, True]] Bottom = [[False, False], [False, True]]"
    using alignBitmap_behaviour [of "[[False, False], [False, True]]" Bottom 0 "Suc 0" 2]
    by (simp add: somePixel_def)
  from 1 2 3 4 5 show ?thesis by blast
qed

subsection \<open>\<open>convertToDynamic\<close> as a map\<close>

lemma convertToDynamic_fold:
  "fst (fold (\<lambda>charData (newData, maxWidth).
             (newData @ [fst (dynamicGlyph ow charData maxWidth)],
              snd (dynamicGlyph ow charData maxWidth))) font (acc, m))
   = acc @ map (\<lambda>g. fst (dynamicGlyph ow g 0)) font"
proof (induction font arbitrary: acc m)
  case Nil
  then show ?case by simp
next
  case (Cons g font)
  have "fst (dynamicGlyph ow g m) = fst (dynamicGlyph ow g 0)"
    by (simp add: dynamicGlyph_def Let_def)
  then show ?case using Cons by simp
qed

lemma convertToDynamic_map:
  "fst (convertToDynamic font ow) = map (\<lambda>g. fst (dynamicGlyph ow g 0)) font"
  using convertToDynamic_fold [of ow font "[]" 0] by (simp add: convertToDynamic_def)


subsection \<open>Fixed to dynamic and back\<close>

lemma minmax_fold:
  fixes Q :: "'a \<Rightarrow> bool" and key :: "'a \<Rightarrow> int"
  assumes "fold (\<lambda>p (a, b). if Q p then ((if key p < a then key p else a),
                                         (if key p > b then key p else b)) else (a, b)) L (a, b)
           = (a', b')"
  shows "a' \<le> a \<and> b \<le> b' \<and> (\<forall>p\<in>set L. Q p \<longrightarrow> a' \<le> key p \<and> key p \<le> b')
       \<and> (a' = a \<or> (\<exists>p\<in>set L. Q p \<and> a' = key p))
       \<and> (b' = b \<or> (\<exists>p\<in>set L. Q p \<and> b' = key p))"
  using assms
proof (induction L arbitrary: a b)
  case Nil
  then show ?case by simp
next
  case (Cons p L)
  let ?a = "if Q p then (if key p < a then key p else a) else a"
  let ?b = "if Q p then (if key p > b then key p else b) else b"
  from Cons.prems have "fold (\<lambda>p (a, b). if Q p then ((if key p < a then key p else a),
                                         (if key p > b then key p else b)) else (a, b)) L (?a, ?b)
           = (a', b')"
    by (simp split: if_splits)
  from Cons.IH [OF this] have
    1: "a' \<le> ?a" "?b \<le> b'" and 2: "\<forall>q\<in>set L. Q q \<longrightarrow> a' \<le> key q \<and> key q \<le> b'"
    and 3: "a' = ?a \<or> (\<exists>q\<in>set L. Q q \<and> a' = key q)"
    and 4: "b' = ?b \<or> (\<exists>q\<in>set L. Q q \<and> b' = key q)"
    by blast+
  have "a' \<le> a" "b \<le> b'" using 1 by (auto split: if_splits)
  moreover have "\<forall>q\<in>set (p # L). Q q \<longrightarrow> a' \<le> key q \<and> key q \<le> b'"
    using 1 2 by (auto split: if_splits)
  moreover have "a' = a \<or> (\<exists>q\<in>set (p # L). Q q \<and> a' = key q)"
    using 3 by (auto split: if_splits)
  moreover have "b' = b \<or> (\<exists>q\<in>set (p # L). Q q \<and> b' = key q)"
    using 4 by (auto split: if_splits)
  ultimately show ?case by blast
qed

lemma nested_fold_flat:
  "fold (\<lambda>y st. fold (\<lambda>x. F (y, x)) (cols y) st) rows st0
   = fold F (concat (map (\<lambda>y. map (Pair y) (cols y)) rows)) st0"
  by (induction rows arbitrary: st0) (simp_all add: fold_map comp_def)

lemma scanColumns_flat:
  "scanColumns bm =
     fold (\<lambda>p (a, b). if bm ! fst p ! snd p
                       then ((if int (snd p) < a then int (snd p) else a),
                             (if int (snd p) > b then int (snd p) else b)) else (a, b))
       (concat (map (\<lambda>y. map (Pair y) [0..<length (bm ! y)]) [0..<length bm]))
       (int (row0_width bm), - 1)"
  unfolding scanColumns_def
  using nested_fold_flat [of "\<lambda>p (a, b). if bm ! fst p ! snd p
                       then ((if int (snd p) < a then int (snd p) else a),
                             (if int (snd p) > b then int (snd p) else b)) else (a, b)"
      "\<lambda>y. [0..<length (bm ! y)]" "[0..<length bm]" "(int (row0_width bm), - 1)"]
  by (simp cong: if_cong)

lemma scanColumns_facts:
  assumes "scanColumns bm = (minX, maxX)"
  shows "minX \<le> int (row0_width bm)" and "- 1 \<le> maxX"
    and "\<And>y x. y < length bm \<Longrightarrow> x < length (bm ! y) \<Longrightarrow> bm ! y ! x \<Longrightarrow> minX \<le> int x \<and> int x \<le> maxX"
    and "minX = int (row0_width bm) \<or> (\<exists>y x. y < length bm \<and> x < length (bm ! y) \<and> bm ! y ! x \<and> minX = int x)"
    and "maxX = - 1 \<or> (\<exists>y x. y < length bm \<and> x < length (bm ! y) \<and> bm ! y ! x \<and> maxX = int x)"
proof -
  let ?L = "concat (map (\<lambda>y. map (Pair y) [0..<length (bm ! y)]) [0..<length bm])"
  have L: "set ?L = {(y, x). y < length bm \<and> x < length (bm ! y)}" by auto
  from assms have "fold (\<lambda>p (a, b). if bm ! fst p ! snd p
                       then ((if int (snd p) < a then int (snd p) else a),
                             (if int (snd p) > b then int (snd p) else b)) else (a, b))
       ?L (int (row0_width bm), - 1) = (minX, maxX)"
    by (simp add: scanColumns_flat)
  from minmax_fold [where Q = "\<lambda>p. bm ! fst p ! snd p" and key = "\<lambda>p. int (snd p)", OF this]
  have 1: "minX \<le> int (row0_width bm)" "- 1 \<le> maxX"
    and 2: "\<forall>p\<in>set ?L. bm ! fst p ! snd p \<longrightarrow> minX \<le> int (snd p) \<and> int (snd p) \<le> maxX"
    and 3: "minX = int (row0_width bm) \<or> (\<exists>p\<in>set ?L. bm ! fst p ! snd p \<and> minX = int (snd p))"
    and 4: "maxX = - 1 \<or> (\<exists>p\<in>set ?L. bm ! fst p ! snd p \<and> maxX = int (snd p))"
    by blast+
  show "minX \<le> int (row0_width bm)" "- 1 \<le> maxX" using 1 by auto
  show "\<And>y x. y < length bm \<Longrightarrow> x < length (bm ! y) \<Longrightarrow> bm ! y ! x \<Longrightarrow> minX \<le> int x \<and> int x \<le> maxX"
    using 2 unfolding L by auto
  show "minX = int (row0_width bm) \<or> (\<exists>y x. y < length bm \<and> x < length (bm ! y) \<and> bm ! y ! x \<and> minX = int x)"
    using 3 unfolding L by auto
  show "maxX = - 1 \<or> (\<exists>y x. y < length bm \<and> x < length (bm ! y) \<and> bm ! y ! x \<and> maxX = int x)"
    using 4 unfolding L by auto
qed

lemma slice_take: "0 \<le> e \<Longrightarrow> slice xs 0 e = take (nat e) xs"
  by (simp add: slice_def Let_def min_def)

lemma blank_row: "\<not> somePixel row \<Longrightarrow> row = replicate (length row) False"
  by (induction row) (auto simp: somePixel_def)

lemma blank_bitmap:
  assumes "\<forall>row\<in>set bm. \<not> somePixel row" "\<forall>row\<in>set bm. length row = w"
  shows "bm = replicate (length bm) (replicate w False)"
proof (rule nth_equalityI)
  show "length bm = length (replicate (length bm) (replicate w False))" by simp
next
  fix y assume "y < length bm"
  then have "bm ! y \<in> set bm" by simp
  then have "bm ! y = replicate w False" using assms blank_row [of "bm ! y"] by auto
  then show "bm ! y = replicate (length bm) (replicate w False) ! y" using \<open>y < length bm\<close> by simp
qed

lemma roundtrip_space:
  assumes "0 \<le> ow" "\<forall>row\<in>set (bitmap g). length row = nat ow" "char g = [32]"
    "\<forall>row\<in>set (bitmap g). \<not> somePixel row"
  shows "bitmap (fixedGlyph ow (fst (dynamicGlyph ow g 0))) = bitmap g"
proof -
  let ?d = "fst (dynamicGlyph ow g 0)"
  define h where "h = length (bitmap g)"
  define sw where "sw = nat (max 1 (ow div 2))"
  have b: "bitmap g = replicate h (replicate (nat ow) False)"
    unfolding h_def using blank_bitmap [OF assms(4) assms(2)] .
  have d: "bitmap ?d = replicate h (replicate sw False)" "length (bytes ?d) = sw"
    using assms(3) by (simp_all add: dynamicGlyph_def Let_def h_def sw_def)
  have sw: "sw \<le> nat ow \<or> (ow = 0 \<and> sw = 1)" using assms(1) unfolding sw_def by auto
  consider "int sw = ow" | "ow = 0" "sw = 1" | "int sw < ow" using sw assms(1) by linarith
  then show ?thesis
  proof cases
    case 1
    then have "fixedGlyph ow ?d = ?d" using d by (simp add: fixedGlyph_def Let_def)
    moreover have "sw = nat ow" using 1 by simp
    ultimately show ?thesis using d(1) b by simp
  next
    case 2
    then have "bitmap (fixedGlyph ow ?d) = map (\<lambda>row. slice row 0 0) (bitmap ?d)"
      using d by (simp add: fixedGlyph_def Let_def)
    also have "\<dots> = replicate h []" using d by (simp add: slice_def)
    finally show ?thesis using b \<open>ow = 0\<close> by simp
  next
    case 3
    then have "bitmap (fixedGlyph ow ?d) = map (\<lambda>row. row @ replicate (nat (ow - int sw)) False) (bitmap ?d)"
      using d by (simp add: fixedGlyph_def Let_def)
    also have "\<dots> = replicate h (replicate (sw + nat (ow - int sw)) False)"
      using d by (simp flip: replicate_add)
    also have "sw + nat (ow - int sw) = nat ow" using 3 by simp
    finally show ?thesis using b by simp
  qed
qed

lemma roundtrip_blank:
  assumes "0 \<le> ow" "\<forall>row\<in>set (bitmap g). length row = nat ow" "char g \<noteq> [32]"
    "\<forall>row\<in>set (bitmap g). \<not> somePixel row"
  shows "bitmap (fixedGlyph ow (fst (dynamicGlyph ow g 0))) = bitmap g"
proof -
  let ?d = "fst (dynamicGlyph ow g 0)"
  define h where "h = length (bitmap g)"
  obtain minX maxX where s: "scanColumns (bitmap g) = (minX, maxX)" by (cases "scanColumns (bitmap g)")
  have np: "\<not> bitmap g ! y ! x" if "y < length (bitmap g)" "x < length (bitmap g ! y)" for y x
  proof -
    have "bitmap g ! y \<in> set (bitmap g)" using that by simp
    then have "\<not> somePixel (bitmap g ! y)" using assms(4) by blast
    then have "\<forall>p\<in>set (bitmap g ! y). \<not> p" by (simp add: somePixel_def list_ex_iff)
    moreover have "bitmap g ! y ! x \<in> set (bitmap g ! y)" using that(2) by simp
    ultimately show ?thesis by blast
  qed
  have "maxX = - 1" using scanColumns_facts(5) [OF s] np by blast
  then have d: "bitmap ?d = replicate h []" "bytes ?d = []"
    using assms(3) s by (simp_all add: dynamicGlyph_def Let_def h_def)
  have b: "bitmap g = replicate h (replicate (nat ow) False)"
    unfolding h_def using blank_bitmap [OF assms(4) assms(2)] .
  show ?thesis
  proof (cases "ow = 0")
    case True
    then have "fixedGlyph ow ?d = ?d" using d by (simp add: fixedGlyph_def Let_def)
    then show ?thesis using d b True by simp
  next
    case False
    then have "bitmap (fixedGlyph ow ?d) = map (\<lambda>row. row @ replicate (nat ow) False) (bitmap ?d)"
      using d assms(1) by (simp add: fixedGlyph_def Let_def)
    then show ?thesis using d b by simp
  qed
qed

lemma roundtrip_left_aligned:
  assumes "0 \<le> ow" "\<forall>row\<in>set (bitmap g). length row = nat ow" "length (bytes g) = nat ow"
    "char g \<noteq> [32]" "px (bitmap g) y0 0"
  shows "bitmap (fixedGlyph ow (fst (dynamicGlyph ow g 0))) = bitmap g"
proof -
  let ?bm = "bitmap g"
  let ?d = "fst (dynamicGlyph ow g 0)"
  obtain minX maxX where s: "scanColumns ?bm = (minX, maxX)" by (cases "scanColumns ?bm")
  have row: "length (?bm ! y) = nat ow" if "y < length ?bm" for y using that assms(2) by simp
  have y0: "y0 < length ?bm" "0 < length (?bm ! y0)" "?bm ! y0 ! 0" using assms(5) by (auto simp: px_def)
  from scanColumns_facts(3) [OF s y0] have m0: "minX \<le> 0" "0 \<le> maxX" by auto
  from scanColumns_facts(4) [OF s] have "0 \<le> minX" by auto
  with m0 have minX: "minX = 0" by simp
  from scanColumns_facts(5) [OF s] m0 obtain ym xm where
    xm: "ym < length ?bm" "xm < length (?bm ! ym)" "maxX = int xm" by auto
  then have xmw: "xm < nat ow" using row by simp
  have above: "\<not> ?bm ! y ! x" if "y < length ?bm" "x < nat ow" "xm < x" for y x
    using scanColumns_facts(3) [OF s, of y x] that row xm by auto
  have d: "bitmap ?d = map (take (Suc xm)) ?bm" "length (bytes ?d) = Suc xm"
    using assms(3,4) s minX xm xmw
    by (auto simp: dynamicGlyph_def Let_def slice_take nat_add_distrib)
  show ?thesis
  proof (cases "int (Suc xm) = ow")
    case True
    then have "fixedGlyph ow ?d = ?d" using d by (simp add: fixedGlyph_def Let_def)
    moreover have "map (take (Suc xm)) ?bm = ?bm"
      using True assms(2) by (intro map_idI) auto
    ultimately show ?thesis using d by simp
  next
    case False
    then have lt: "int (Suc xm) < ow" using xmw by linarith
    then have "bitmap (fixedGlyph ow ?d)
        = map (\<lambda>row. row @ replicate (nat (ow - int (Suc xm))) False) (bitmap ?d)"
      using d by (simp add: fixedGlyph_def Let_def)
    also have "\<dots> = map (\<lambda>row. take (Suc xm) row @ replicate (nat ow - Suc xm) False) ?bm"
    proof -
      have "nat (ow - int (Suc xm)) = nat ow - Suc xm" using lt by linarith
      then show ?thesis using d by (simp add: comp_def)
    qed
    also have "\<dots> = ?bm"
    proof (rule nth_equalityI)
      show "length (map (\<lambda>row. take (Suc xm) row @ replicate (nat ow - Suc xm) False) ?bm) = length ?bm"
        by simp
    next
      fix y assume "y < length (map (\<lambda>row. take (Suc xm) row @ replicate (nat ow - Suc xm) False) ?bm)"
      then have y: "y < length ?bm" by simp
      have "take (Suc xm) (?bm ! y) @ replicate (nat ow - Suc xm) False = ?bm ! y"
      proof (rule nth_equalityI)
        show "length (take (Suc xm) (?bm ! y) @ replicate (nat ow - Suc xm) False) = length (?bm ! y)"
          using row [OF y] xmw by simp
      next
        fix x assume "x < length (take (Suc xm) (?bm ! y) @ replicate (nat ow - Suc xm) False)"
        then have x: "x < nat ow" using row [OF y] xmw by simp
        show "(take (Suc xm) (?bm ! y) @ replicate (nat ow - Suc xm) False) ! x = ?bm ! y ! x"
        proof (cases "x \<le> xm")
          case True
          then show ?thesis using row [OF y] xmw by (simp add: nth_append)
        next
          case False
          then have "\<not> ?bm ! y ! x" using above [OF y x] by simp
          then show ?thesis using False row [OF y] xmw x by (simp add: nth_append)
        qed
      qed
      then show "map (\<lambda>row. take (Suc xm) row @ replicate (nat ow - Suc xm) False) ?bm ! y = ?bm ! y"
        using y by simp
    qed
    finally show ?thesis .
  qed
qed

text \<open>
  Claim C3 says that converting fixed to dynamic and back to fixed at the original width
  gives every glyph its bitmap back. \<open>convertToDynamic\<close> cuts the blank columns on both
  sides of the glyph and \<open>convertToFixed\<close> pads on the right only, so a glyph with a blank
  first column comes back moved to the left: a vertical stroke in the middle column of a
  width of 3 comes back in the first column.
\<close>

theorem convert_roundtrip_counterexample:
  "bitmap (convertToFixed (fst (convertToDynamic
       [\<lparr>char = [73], ascii = Some 73, bitmap = [[False, True, False], [False, True, False]],
         bytes = [0, 3, 0]\<rparr>] 3)) 3 ! 0)
     = [[True, False, False], [True, False, False]]
   \<and> [[True, False, False], [True, False, False]] \<noteq> [[False, True, False], [False, True, False]]"
  by code_simp

text \<open>
  Claim C3, amended. For a glyph record of width \<open>originalWidth\<close> (every row of the bitmap
  and the bytes have that length), the conversion to dynamic and back to fixed at
  \<open>originalWidth\<close> gives the bitmap back when the glyph is blank, and when it is not the
  space character and has a set pixel in its first column.
\<close>

theorem convert_roundtrip_left_aligned:
  assumes "i < length font" and "0 \<le> originalWidth"
    and "\<forall>row\<in>set (bitmap (font ! i)). length row = nat originalWidth"
    and "length (bytes (font ! i)) = nat originalWidth"
    and "(\<forall>row\<in>set (bitmap (font ! i)). \<not> somePixel row)
         \<or> (char (font ! i) \<noteq> [32] \<and> (\<exists>y. px (bitmap (font ! i)) y 0))"
  shows "bitmap (convertToFixed (fst (convertToDynamic font originalWidth)) originalWidth ! i)
       = bitmap (font ! i)"
proof -
  have "convertToFixed (fst (convertToDynamic font originalWidth)) originalWidth ! i
      = fixedGlyph originalWidth (fst (dynamicGlyph originalWidth (font ! i) 0))"
    using assms(1) by (simp add: convertToFixed_def convertToDynamic_map)
  moreover have "bitmap (fixedGlyph originalWidth (fst (dynamicGlyph originalWidth (font ! i) 0)))
      = bitmap (font ! i)"
    using assms(2-5) roundtrip_space [of originalWidth "font ! i"]
      roundtrip_blank [of originalWidth "font ! i"] roundtrip_left_aligned [of originalWidth "font ! i"]
    by blast
  ultimately show ?thesis by simp
qed

theorem convert_roundtrip_left_aligned_witness:
  "bitmap (convertToFixed (fst (convertToDynamic
       [\<lparr>char = [76], ascii = Some 76, bitmap = [[True, False, False], [True, True, False]],
         bytes = [3, 1, 0]\<rparr>] 3)) 3 ! 0)
     = [[True, False, False], [True, True, False]]"
proof -
  let ?g = "\<lparr>char = [76], ascii = Some 76, bitmap = [[True, False, False], [True, True, False]],
         bytes = [3, 1, 0]\<rparr>"
  have "px (bitmap ?g) 0 0" by (simp add: px_def)
  then have "\<exists>y. px (bitmap ?g) y 0" by blast
  with convert_roundtrip_left_aligned [of 0 "[?g]" 3] show ?thesis
    by (simp add: numeral_3_eq_3)
qed

section \<open>Properties of the rasterization pipeline\<close>

lemma allFalse_Inr: "allFalse ht w = Inr bm \<Longrightarrow> bm = replicate (nat ht) (replicate (nat w) False)"
  by (simp add: allFalse_def split: if_splits)

lemma emptyRows_Inr: "emptyRows ht = Inr bm \<Longrightarrow> bm = replicate (nat ht) []"
  by (simp add: emptyRows_def split: if_splits)

lemma generateChars_loop:
  assumes "foldE (\<lambda>ch generatedChars. case glyphOf canvas options ch of
                      Inl e \<Rightarrow> Inl e | Inr g \<Rightarrow> Inr (generatedChars @ [g])) chars acc = Inr gs"
  shows "length gs = length acc + length chars
       \<and> (\<forall>i<length acc. gs ! i = acc ! i)
       \<and> (\<forall>i<length chars. glyphOf canvas options (chars ! i) = Inr (gs ! (length acc + i)))"
  using assms
proof (induction chars arbitrary: acc)
  case Nil
  then show ?case by simp
next
  case (Cons ch chars)
  from Cons.prems obtain g where g: "glyphOf canvas options ch = Inr g"
    and r: "foldE (\<lambda>ch generatedChars. case glyphOf canvas options ch of
                      Inl e \<Rightarrow> Inl e | Inr g \<Rightarrow> Inr (generatedChars @ [g])) chars (acc @ [g]) = Inr gs"
    by (auto split: sum.splits)
  from Cons.IH [OF r] have l: "length gs = length acc + 1 + length chars"
    and a: "\<forall>i<length acc + 1. gs ! i = (acc @ [g]) ! i"
    and c: "\<forall>i<length chars. glyphOf canvas options (chars ! i) = Inr (gs ! (length acc + 1 + i))"
    by auto
  have "gs ! length acc = g" using a by (auto simp: nth_append)
  moreover have "\<forall>i<length acc. gs ! i = acc ! i" using a by (auto simp: nth_append)
  ultimately show ?case using l c g by (auto simp: nth_Cons')
qed

lemma generateChars_nth:
  assumes "0 < width options" "generateChars canvas options chars = Inr gs" "i < length chars"
  shows "glyphOf canvas options (chars ! i) = Inr (gs ! i)"
proof -
  from assms(1,2) have "foldE (\<lambda>ch generatedChars. case glyphOf canvas options ch of
                      Inl e \<Rightarrow> Inl e | Inr g \<Rightarrow> Inr (generatedChars @ [g])) chars [] = Inr gs"
    by (simp add: generateChars_def Let_def split: if_splits)
  from generateChars_loop [OF this] assms(3) show ?thesis by simp
qed

text \<open>
  Claim C8. Where a glyph is trimmed to dynamic width, the space character gets an
  all-false bitmap of width exactly \<open>max(1, floor(w / 2))\<close>, whatever was drawn or stored
  for it: in \<open>convertToDynamic\<close> with \<open>w\<close> the original fixed width, and in the dynamic
  branch of \<open>generateChars\<close> (reached when the render width is positive) with \<open>w\<close> the
  glyph render width, for every canvas.
\<close>

theorem space_width_when_trimming:
  "(\<forall>i<length font. char (font ! i) = [32] \<longrightarrow>
       bitmap (fst (convertToDynamic font originalWidth) ! i)
         = replicate (length (bitmap (font ! i))) (replicate (nat (max 1 (originalWidth div 2))) False))
   \<and> (dynamicWidth options \<and> 0 < width options \<and> generateChars canvas options chars = Inr gs \<longrightarrow>
        (\<forall>i<length chars. chars ! i = [32] \<longrightarrow>
           bitmap (gs ! i)
             = replicate (nat (height options)) (replicate (nat (max 1 (width options div 2))) False)))"
proof (intro conjI allI impI)
  fix i assume "i < length font" "char (font ! i) = [32]"
  then show "bitmap (fst (convertToDynamic font originalWidth) ! i)
         = replicate (length (bitmap (font ! i))) (replicate (nat (max 1 (originalWidth div 2))) False)"
    by (simp add: convertToDynamic_map dynamicGlyph_def Let_def)
next
  fix i assume a: "dynamicWidth options \<and> 0 < width options \<and> generateChars canvas options chars = Inr gs"
    and i: "i < length chars" "chars ! i = [32]"
  from a i generateChars_nth [of options canvas chars gs i]
  have g: "glyphOf canvas options [32] = Inr (gs ! i)" by simp
  have m: "(if width options div 2 = 0 then 1 else width options div 2) = max 1 (width options div 2)"
    using a by auto
  obtain rb where rb: "render canvas [32] = Inr rb"
    using g by (cases "render canvas [32]") (auto simp: glyphOf_def Let_def)
  let ?bm = "replicate (nat (height options)) (replicate (nat (max 1 (width options div 2))) False)"
  from g rb a m obtain fb where fb: "allFalse (height options) (max 1 (width options div 2)) = Inr fb"
    and gi: "Inr (gs ! i) = (Inr \<lparr>char = [32], ascii = codePointAt0 [32], bitmap = fb,
       bytes = bitmapToBytes fb (height options)\<rparr> :: error + GeneratedChar)"
    by (cases "allFalse (height options) (max 1 (width options div 2))")
      (simp_all add: glyphOf_def Let_def)
  from allFalse_Inr [OF fb] have "fb = ?bm" .
  moreover from gi have "gs ! i = \<lparr>char = [32], ascii = codePointAt0 [32], bitmap = fb,
       bytes = bitmapToBytes fb (height options)\<rparr>" by simp
  ultimately show "bitmap (gs ! i) = ?bm" by simp
qed

theorem space_width_when_trimming_witness:
  "bitmap (fst (convertToDynamic
       [\<lparr>char = [32], ascii = Some 32, bitmap = [[True, True, True, True, True]],
         bytes = [1, 1, 1, 1, 1]\<rparr>] 5) ! 0) = [[False, False]]
   \<and> generateChars \<lparr>contextAvailable = True, render = (\<lambda>ch. Inr [[True, True, True]])\<rparr>
        \<lparr>width = 3, height = 1, charSpacing = 0, dynamicWidth = True\<rparr> [[32]]
       = Inr [\<lparr>char = [32], ascii = Some 32, bitmap = [[False]], bytes = [0]\<rparr>]"
proof -
  let ?font = "[\<lparr>char = [32], ascii = Some 32, bitmap = [[True, True, True, True, True]],
         bytes = [1, 1, 1, 1, 1]\<rparr>]"
  let ?canvas = "\<lparr>contextAvailable = True, render = (\<lambda>ch. Inr [[True, True, True]])\<rparr>"
  let ?options = "\<lparr>width = 3, height = 1, charSpacing = 0, dynamicWidth = True\<rparr>"
  let ?gs = "[\<lparr>char = [32], ascii = Some 32, bitmap = [[False]], bytes = [0]\<rparr>]"
  have e: "generateChars ?canvas ?options [[32]] = Inr ?gs"
    by (simp add: generateChars_def glyphOf_def isWhiteSpace_def codePointAt0_def bitmapToBytes_def
        row0_width_def encodeColumn_def px_def allFalse_def validArrayLength_def)
  have "bitmap (fst (convertToDynamic ?font 5) ! 0) = [[False, False]]"
    using space_width_when_trimming [of ?font 5 ?options ?canvas "[[32]]" ?gs]
    by (simp add: numeral_2_eq_2)
  then show ?thesis using e by simp
qed







section \<open>The invariant of the records produced\<close>

lemma no_high_bit_iff: "(0 \<le> b \<and> b < 2 ^ n) = (\<forall>i\<ge>n. \<not> bit (b::int) i)"
proof -
  have "(0 \<le> b \<and> b < 2 ^ n) = (take_bit n b = b)"
    by (simp only: take_bit_int_eq_self_iff)
  also have "\<dots> = (\<forall>i\<ge>n. \<not> bit b i)"
  proof
    assume e: "take_bit n b = b"
    show "\<forall>i\<ge>n. \<not> bit b i"
    proof (intro allI impI)
      fix i assume "n \<le> i"
      then have "\<not> bit (take_bit n b) i" by (simp add: bit_take_bit_iff)
      then show "\<not> bit b i" using e by metis
    qed
  next
    assume a: "\<forall>i\<ge>n. \<not> bit b i"
    show "take_bit n b = b"
    proof (rule bit_eqI)
      fix i
      show "bit (take_bit n b) i = bit b i"
        using a by (cases "i < n") (simp_all add: bit_take_bit_iff)
    qed
  qed
  finally show ?thesis .
qed

lemma encodeColumn_range:
  assumes "ht \<le> 31"
  shows "0 \<le> encodeColumn bm ht c \<and> encodeColumn bm ht c < 2 ^ nat ht"
proof -
  have "\<not> bit (encodeColumn bm ht c) i" if "nat ht \<le> i" for i
  proof
    assume "bit (encodeColumn bm ht c) i"
    then obtain r where "r < nat ht" "i = nat (ht - 1 - int r)"
      using bit_encodeColumn [OF assms, of bm c i] by blast
    then show False using that by linarith
  qed
  then show ?thesis using no_high_bit_iff [of "encodeColumn bm ht c" "nat ht"] by blast
qed

lemma bitmapToBytes_invariant:
  assumes "ht \<le> 31"
  shows "length (bitmapToBytes bm ht) = row0_width bm
       \<and> list_all (\<lambda>b. 0 \<le> b \<and> b < 2 ^ nat ht) (bitmapToBytes bm ht)"
  using encodeColumn_range [OF assms, of bm]
  by (simp add: bitmapToBytes_map list_all_iff)

lemma row0_width_replicate: "0 < n \<Longrightarrow> row0_width (replicate n row) = length row"
  by (cases n) (simp_all add: row0_width_def)

lemma glyphOf_invariant:
  assumes "1 \<le> height options" "height options \<le> 8" "glyphOf canvas options ch = Inr g"
  shows "glyphInvariant (height options) g"
proof (cases "list_all isWhiteSpace ch \<and> ch \<noteq> [32]")
  case True
  let ?tw = "nat (if dynamicWidth options then 0 else width options + charSpacing options)"
  from True assms(3) have "g = \<lparr>char = ch, ascii = codePointAt0 ch,
       bitmap = replicate (nat (height options)) (replicate ?tw False), bytes = replicate ?tw 0\<rparr>"
    by (auto simp: glyphOf_def Let_def split: if_splits)
  then show ?thesis using assms(1)
    by (simp add: glyphInvariant_def row0_width_replicate list_all_iff)
next
  case False
  with assms(3) obtain fb where "g = \<lparr>char = ch, ascii = codePointAt0 ch, bitmap = fb,
       bytes = bitmapToBytes fb (height options)\<rparr>"
    by (auto simp: glyphOf_def Let_def split: sum.splits)
  then show ?thesis using bitmapToBytes_invariant [of "height options" fb] assms(2)
    by (simp add: glyphInvariant_def)
qed

lemma short_circuit_no_column_Inr:
  assumes "foldE (\<lambda>ch generatedChars.
                  case emptyRows ht of
                    Inl e \<Rightarrow> Inl e
                  | Inr rows \<Rightarrow>
                      Inr (generatedChars @
                           [\<lparr>char = ch, ascii = codePointAt0 ch, bitmap = rows, bytes = []\<rparr>]))
           chars acc = Inr gs"
  shows "gs = acc @ map (\<lambda>ch. \<lparr>char = ch, ascii = codePointAt0 ch, bitmap = replicate (nat ht) [],
                                 bytes = []\<rparr>) chars"
  using assms
proof (induction chars arbitrary: acc)
  case Nil
  then show ?case by simp
next
  case (Cons ch chars)
  from Cons.prems obtain rows where r: "emptyRows ht = Inr rows"
    by (cases "emptyRows ht") auto
  then have rows: "rows = replicate (nat ht) []" by (rule emptyRows_Inr)
  let ?g = "\<lparr>char = ch, ascii = codePointAt0 ch, bitmap = replicate (nat ht) [], bytes = []\<rparr>"
  from Cons.prems r rows have "foldE (\<lambda>ch generatedChars.
                  case emptyRows ht of
                    Inl e \<Rightarrow> Inl e
                  | Inr rows \<Rightarrow>
                      Inr (generatedChars @
                           [\<lparr>char = ch, ascii = codePointAt0 ch, bitmap = rows, bytes = []\<rparr>]))
           chars (acc @ [?g]) = Inr gs"
    by simp
  from Cons.IH [OF this] show ?case by simp
qed

lemma generateChars_invariant:
  assumes "1 \<le> height options" "height options \<le> 8" "generateChars canvas options chars = Inr gs"
  shows "\<forall>g\<in>set gs. glyphInvariant (height options) g"
proof (cases "width options \<le> 0")
  case True
  define tw where "tw = (if dynamicWidth options then 0 else charSpacing options)"
  have "gs = map (\<lambda>ch. \<lparr>char = ch, ascii = codePointAt0 ch,
       bitmap = replicate (nat (height options)) (replicate (nat tw) False),
       bytes = replicate (nat tw) 0\<rparr>) chars"
  proof (cases "tw \<le> 0")
    case t: True
    with True assms(3) have "foldE (\<lambda>ch generatedChars.
                  case emptyRows (height options) of
                    Inl e \<Rightarrow> Inl e
                  | Inr rows \<Rightarrow>
                      Inr (generatedChars @
                           [\<lparr>char = ch, ascii = codePointAt0 ch, bitmap = rows, bytes = []\<rparr>]))
           chars [] = Inr gs"
      by (simp add: generateChars_def Let_def tw_def)
    from short_circuit_no_column_Inr [OF this] t show ?thesis by simp
  next
    case f: False
    with True assms(3) obtain fb where fb: "allFalse (height options) tw = Inr fb"
      and gs: "gs = map (\<lambda>ch. \<lparr>char = ch, ascii = codePointAt0 ch, bitmap = fb,
          bytes = replicate (nat tw) 0\<rparr>) chars"
      by (cases "allFalse (height options) tw")
        (auto simp: generateChars_def Let_def tw_def split: if_splits)
    from allFalse_Inr [OF fb] gs show ?thesis by simp
  qed
  then show ?thesis using assms(1)
    by (auto simp: glyphInvariant_def row0_width_replicate list_all_iff)
next
  case False
  show ?thesis
  proof
    fix g assume "g \<in> set gs"
    then obtain i where i: "i < length gs" "gs ! i = g" by (auto simp: in_set_conv_nth)
    from False assms(3) have "foldE (\<lambda>ch generatedChars. case glyphOf canvas options ch of
                      Inl e \<Rightarrow> Inl e | Inr g \<Rightarrow> Inr (generatedChars @ [g])) chars [] = Inr gs"
      by (simp add: generateChars_def Let_def split: if_splits)
    from generateChars_loop [OF this] i
    have "glyphOf canvas options (chars ! i) = Inr g" by simp
    then show "glyphInvariant (height options) g" using assms(1,2) by (rule glyphOf_invariant [rotated 2])
  qed
qed

lemma realignGlyph_invariant:
  assumes "ht \<le> 8"
  shows "glyphInvariant ht (realignGlyph d ht g)"
  using bitmapToBytes_invariant [of ht "alignBitmap (bitmap g) d"] assms
  by (simp add: realignGlyph_def glyphInvariant_def Let_def)

lemma length_slice_same: "length xs = length ys \<Longrightarrow> length (slice xs a b) = length (slice ys a b)"
  by (simp add: slice_def Let_def)

lemma set_slice: "set (slice xs a b) \<subseteq> set xs"
  by (auto simp: slice_def Let_def dest: in_set_takeD in_set_dropD)

lemma length_slice_inside:
  assumes "0 \<le> a" "0 \<le> n" "a + n \<le> int (length xs)"
  shows "length (slice xs a (a + n)) = nat n"
  using assms by (auto simp: slice_def Let_def min_def)

lemma fixedGlyph_invariant:
  assumes "glyphInvariant ht g" "rectangular g"
  shows "glyphInvariant ht (fixedGlyph newWidth g) \<and> rectangular (fixedGlyph newWidth g)"
proof -
  obtain row rows where bm: "bitmap g = row # rows" using assms(2) by (cases "bitmap g") (auto simp: rectangular_def)
  have rl: "\<forall>r\<in>set (bitmap g). length r = length (bytes g)" using assms(2) by (simp add: rectangular_def list_all_iff)
  have fit: "\<forall>b\<in>set (bytes g). 0 \<le> b \<and> b < 2 ^ nat ht" using assms(1) by (simp add: glyphInvariant_def list_all_iff)
  have sl: "length (slice r 0 newWidth) = length (slice (bytes g) 0 newWidth)" if "r \<in> set (bitmap g)" for r
    using that rl by (intro length_slice_same) simp
  have fs: "\<forall>b\<in>set (slice (bytes g) 0 newWidth). 0 \<le> b \<and> b < 2 ^ nat ht"
    using fit set_slice [of "bytes g" 0 newWidth] by blast
  show ?thesis
    using assms bm rl fit sl fs
    by (auto simp: fixedGlyph_def Let_def glyphInvariant_def rectangular_def row0_width_def list_all_iff)
qed

lemma dynamicGlyph_invariant:
  assumes "glyphInvariant ht g" "rectangular g"
  shows "glyphInvariant ht (fst (dynamicGlyph ow g m)) \<and> rectangular (fst (dynamicGlyph ow g m))"
proof -
  obtain row rows where bm: "bitmap g = row # rows" using assms(2) by (cases "bitmap g") (auto simp: rectangular_def)
  have rl: "\<forall>r\<in>set (bitmap g). length r = length (bytes g)" using assms(2) by (simp add: rectangular_def list_all_iff)
  have fit: "\<forall>b\<in>set (bytes g). 0 \<le> b \<and> b < 2 ^ nat ht" using assms(1) by (simp add: glyphInvariant_def list_all_iff)
  have sl: "length (slice r a b) = length (slice (bytes g) a b)" if "r \<in> set (bitmap g)" for r a b
    using that rl by (intro length_slice_same) simp
  have fs: "\<forall>x\<in>set (slice (bytes g) a b). 0 \<le> x \<and> x < 2 ^ nat ht" for a b
    using fit set_slice [of "bytes g" a b] by blast
  show ?thesis
    using bm rl sl fs
    by (auto simp: dynamicGlyph_def Let_def glyphInvariant_def rectangular_def row0_width_def list_all_iff)
qed

lemma foldE_invariant:
  assumes "foldE f xs s = Inr s'" "I s" "\<And>x t t'. x \<in> set xs \<Longrightarrow> I t \<Longrightarrow> f x t = Inr t' \<Longrightarrow> I t'"
  shows "I s'"
  using assms
proof (induction xs arbitrary: s)
  case Nil
  then show ?case by simp
next
  case (Cons x xs)
  from Cons.prems(1) obtain t where t: "f x s = Inr t" "foldE f xs t = Inr s'"
    by (auto split: sum.splits)
  have "I t" using Cons.prems(2,3) t(1) by auto
  then show ?case using Cons.IH [OF t(2)] Cons.prems(3) by auto
qed

lemma decoded_shape:
  assumes "1 \<le> ht" "ht \<le> 8" "bytesToBitmap bs wd ht = Inr bm"
  shows "0 \<le> wd \<and> bm \<noteq> [] \<and> (\<forall>row\<in>set bm. length row = nat wd) \<and> row0_width bm = nat wd"
proof -
  have v: "validArrayLength wd"
    using assms(1,3) by (auto simp: bytesToBitmap_def allFalse_def split: if_splits sum.splits)
  then have w: "0 \<le> wd" by (simp add: validArrayLength_def)
  from v have "bm = map (\<lambda>r. map (\<lambda>c. bit (byteAt bs c) (nat (ht - 1 - int r))) [0..<nat wd]) [0..<nat ht]"
    using assms(2,3) by (simp add: bytesToBitmap_decoded)
  moreover have "[0..<nat ht] = 0 # [1..<nat ht]" using assms(1) by (simp add: upt_conv_Cons)
  ultimately show ?thesis using w by (auto simp: row0_width_def)
qed

lemma imported_glyph:
  assumes "1 \<le> ht" "ht \<le> 8" "bytesToBitmap (slice dataBytes a (a + wd)) wd ht = Inr bm"
    "0 \<le> a" "a + wd \<le> int (length dataBytes)"
  shows "imported dataBytes \<lparr>char = ch, ascii = cc, bitmap = bm, bytes = slice dataBytes a (a + wd)\<rparr>"
proof -
  from decoded_shape [OF assms(1-3)] have s: "0 \<le> wd" "bm \<noteq> []" "\<forall>row\<in>set bm. length row = nat wd"
    "row0_width bm = nat wd" by auto
  have "length (slice dataBytes a (a + wd)) = nat wd"
    using assms(4,5) s(1) by (intro length_slice_inside)
  then show ?thesis using s set_slice [of dataBytes a "a + wd"]
    by (simp add: imported_def rectangular_def list_all_iff)
qed

lemma fixed_loop_imported:
  assumes "1 \<le> ht" "ht \<le> 8" "0 < wd" "int (length dataBytes) = int n * wd"
    "foldE (fixedStep uniq dataBytes wd ht) [0..<n] [] = Inr gs"
  shows "\<forall>g\<in>set gs. imported dataBytes g"
proof (rule foldE_invariant [OF assms(5), where I = "\<lambda>gs. \<forall>g\<in>set gs. imported dataBytes g"])
  show "\<forall>g\<in>set []. imported dataBytes g" by simp
next
  fix i t t'
  assume i: "i \<in> set [0..<n]" and t: "\<forall>g\<in>set t. imported dataBytes g"
    and s: "fixedStep uniq dataBytes wd ht i t = Inr t'"
  from s obtain bm where bm: "bytesToBitmap (slice dataBytes (int i * wd) (int i * wd + wd)) wd ht = Inr bm"
    and t': "t' = t @ [\<lparr>char = uniq ! i, ascii = charCodeAt (uniq ! i) 0, bitmap = bm,
        bytes = slice dataBytes (int i * wd) (int i * wd + wd)\<rparr>]"
    by (auto simp: fixedStep_def Let_def split: sum.splits)
  have "int i + 1 \<le> int n" using i by simp
  then have "(int i + 1) * wd \<le> int n * wd" using assms(3) by (intro mult_right_mono) auto
  then have le: "int i * wd + wd \<le> int (length dataBytes)" using assms(4) by (simp add: algebra_simps)
  have ge: "0 \<le> int i * wd" using assms(3) by simp
  from imported_glyph [OF assms(1,2) bm ge le] t t'
  show "\<forall>g\<in>set t'. imported dataBytes g" by auto
qed

lemma dynamic_loop_imported:
  assumes "1 \<le> ht" "ht \<le> 8" "\<forall>i<n. 0 \<le> offsets ! i"
    "foldE (dynamicStep uniq dataBytes widths offsets ht) [0..<n] st0 = Inr st" "snd st0 = []"
  shows "\<forall>g\<in>set (snd st). imported dataBytes g"
proof (rule foldE_invariant [OF assms(4), where I = "\<lambda>st. \<forall>g\<in>set (snd st). imported dataBytes g"])
  show "\<forall>g\<in>set (snd st0). imported dataBytes g" using assms(5) by simp
next
  fix i t t'
  assume i: "i \<in> set [0..<n]" and t: "\<forall>g\<in>set (snd t). imported dataBytes g"
    and s: "dynamicStep uniq dataBytes widths offsets ht i t = Inr t'"
  from s have le: "offsets ! i + widths ! i \<le> int (length dataBytes)"
    by (auto simp: dynamicStep_def Let_def split: if_splits)
  with s obtain bm where
    bm: "bytesToBitmap (slice dataBytes (offsets ! i) (offsets ! i + widths ! i)) (widths ! i) ht = Inr bm"
    and t': "snd t' = snd t @ [\<lparr>char = uniq ! i, ascii = charCodeAt (uniq ! i) 0, bitmap = bm,
        bytes = slice dataBytes (offsets ! i) (offsets ! i + widths ! i)\<rparr>]"
    by (auto simp: dynamicStep_def Let_def split: sum.splits if_splits)
  have ge: "0 \<le> offsets ! i" using i assms(3) by simp
  from imported_glyph [OF assms(1,2) bm ge le] t t'
  show "\<forall>g\<in>set (snd t'). imported dataBytes g" by auto
qed

lemma parseImportedData_imported:
  assumes "parseImportedData io = Inr r"
    "isDynamic io \<longrightarrow> (\<forall>off\<in>set (parseArrayString (rawOffsets io)). 0 \<le> off)"
  shows "\<forall>g\<in>set (fontData r). imported (parseArrayString (rawData io)) g"
proof -
  let ?uniq = "uniqueChars (characterSet io)" and ?data = "parseArrayString (rawData io)"
  have h: "1 \<le> charHeight io" "charHeight io \<le> 8"
    using assms(1) by (auto simp: parseImportedData_def Let_def split: if_splits)
  show ?thesis
  proof (cases "isDynamic io")
    case True
    let ?widths = "parseArrayString (rawWidths io)" and ?offsets = "parseArrayString (rawOffsets io)"
    from True assms(1) h obtain st where
      st: "foldE (dynamicStep ?uniq ?data ?widths ?offsets (charHeight io)) [0..<length ?uniq] (0, []) = Inr st"
      and r: "fontData r = snd st"
      and len: "?widths = [] \<and> ?uniq = [] \<or> length ?uniq = length ?widths \<and> length ?uniq = length ?offsets"
      by (auto simp: parseImportedData_def Let_def split: if_splits sum.splits)
    have "\<forall>i<length ?uniq. 0 \<le> ?offsets ! i" using len assms(2) True by auto
    from dynamic_loop_imported [OF h this st] r show ?thesis by simp
  next
    case False
    from False assms(1) h obtain gs where
      gs: "foldE (fixedStep ?uniq ?data (charWidth io) (charHeight io)) [0..<length ?uniq] [] = Inr gs"
      and r: "fontData r = gs" and w: "0 < charWidth io"
      and len: "?uniq = [] \<or> int (length ?data) = int (length ?uniq) * charWidth io"
      by (auto simp: parseImportedData_def Let_def split: if_splits sum.splits)
    show ?thesis
    proof (cases "?uniq = []")
      case True
      then show ?thesis using gs r by simp
    next
      case False
      then have "int (length ?data) = int (length ?uniq) * charWidth io" using len by simp
      from fixed_loop_imported [OF h w this gs] r show ?thesis by simp
    qed
  qed
qed

text \<open>
  Claim C2 says that every record produced by rasterization, import and format
  conversion has \<open>bytes.length = bitmap[0].length\<close> and no byte with a set bit at a
  position \<open>\<ge> height\<close>. The import stores the values of the data array as they are:
  with a height of 5, the value \<open>0xFF\<close> stays \<open>255\<close> in the record, with bits 5 to 7 set,
  while the bitmap holds the five low bits.
\<close>

theorem glyph_invariant_counterexample:
  "parseImportedData \<lparr>rawData = str ''{0xFF}'', rawWidths = str '''', rawOffsets = str '''',
       characterSet = str ''A'', charHeight = 5, charWidth = 1, isDynamic = False\<rparr>
     = Inr \<lparr>fontData = [\<lparr>char = str ''A'', ascii = Some 65,
                           bitmap = [[True], [True], [True], [True], [True]], bytes = [255]\<rparr>],
            optWidth = 1, optHeight = 5, optCharacterSet = str ''A'', optDynamicWidth = False,
            optCharSpacing = 0\<rparr>
   \<and> \<not> glyphInvariant 5 \<lparr>char = str ''A'', ascii = Some 65,
                           bitmap = [[True], [True], [True], [True], [True]], bytes = [255]\<rparr>
   \<and> bit (255 :: int) 7"
  by code_simp

text \<open>
  Claim C2, amended. For a height in \<open>[1,8]\<close>: every record produced by
  \<open>generateChars\<close>, and every record re-encoded by the vertical realignment, has
  \<open>bytes.length = bitmap[0].length\<close> and no byte with a set bit at a position
  \<open>\<ge> height\<close>. Every record produced by \<open>parseImportedData\<close> (in dynamic mode: with
  offsets that are not negative) is rectangular with \<open>bytes.length = bitmap[0].length\<close>,
  and its bytes are values of the data array, kept as given: they have no set bit at a
  position \<open>\<ge> height\<close> when the values of the data array lie in \<open>[0, 2 ^ height)\<close>.
  \<open>convertToFixed\<close> and \<open>convertToDynamic\<close> keep both properties on rectangular records
  that have them.
\<close>

theorem glyph_invariant_of_operations:
  "(1 \<le> height options \<and> height options \<le> 8 \<and> generateChars canvas options chars = Inr gs \<longrightarrow>
      (\<forall>g\<in>set gs. glyphInvariant (height options) g))
   \<and> (1 \<le> ht \<and> ht \<le> 8 \<longrightarrow> glyphInvariant ht (realignGlyph d ht g0))
   \<and> (parseImportedData io = Inr r
        \<and> (isDynamic io \<longrightarrow> (\<forall>off\<in>set (parseArrayString (rawOffsets io)). 0 \<le> off)) \<longrightarrow>
      (\<forall>g\<in>set (fontData r).
          rectangular g \<and> length (bytes g) = row0_width (bitmap g)
          \<and> set (bytes g) \<subseteq> set (parseArrayString (rawData io))
          \<and> ((\<forall>b\<in>set (parseArrayString (rawData io)). 0 \<le> b \<and> b < 2 ^ nat (charHeight io)) \<longrightarrow>
               glyphInvariant (charHeight io) g)))
   \<and> ((\<forall>g\<in>set font. glyphInvariant ht g \<and> rectangular g) \<longrightarrow>
        (\<forall>g\<in>set (convertToFixed font newWidth). glyphInvariant ht g \<and> rectangular g)
        \<and> (\<forall>g\<in>set (fst (convertToDynamic font originalWidth)). glyphInvariant ht g \<and> rectangular g))"
proof (intro conjI impI)
  assume "1 \<le> height options \<and> height options \<le> 8 \<and> generateChars canvas options chars = Inr gs"
  then show "\<forall>g\<in>set gs. glyphInvariant (height options) g"
    using generateChars_invariant [of options canvas chars gs] by blast
next
  assume "1 \<le> ht \<and> ht \<le> 8"
  then show "glyphInvariant ht (realignGlyph d ht g0)" by (simp add: realignGlyph_invariant)
next
  assume a: "parseImportedData io = Inr r
        \<and> (isDynamic io \<longrightarrow> (\<forall>off\<in>set (parseArrayString (rawOffsets io)). 0 \<le> off))"
  then have "\<forall>g\<in>set (fontData r). imported (parseArrayString (rawData io)) g"
    using parseImportedData_imported [of io r] by blast
  then show "\<forall>g\<in>set (fontData r).
          rectangular g \<and> length (bytes g) = row0_width (bitmap g)
          \<and> set (bytes g) \<subseteq> set (parseArrayString (rawData io))
          \<and> ((\<forall>b\<in>set (parseArrayString (rawData io)). 0 \<le> b \<and> b < 2 ^ nat (charHeight io)) \<longrightarrow>
               glyphInvariant (charHeight io) g)"
    by (auto simp: imported_def glyphInvariant_def list_all_iff)
next
  assume a: "\<forall>g\<in>set font. glyphInvariant ht g \<and> rectangular g"
  show "\<forall>g\<in>set (convertToFixed font newWidth). glyphInvariant ht g \<and> rectangular g"
    using a fixedGlyph_invariant [of ht _ newWidth] by (auto simp: convertToFixed_def)
  show "\<forall>g\<in>set (fst (convertToDynamic font originalWidth)). glyphInvariant ht g \<and> rectangular g"
    using a dynamicGlyph_invariant [of ht _ originalWidth 0] by (auto simp: convertToDynamic_map)
qed

theorem glyph_invariant_of_operations_witness:
  "glyphInvariant 2 \<lparr>char = str ''A'', ascii = Some 65, bitmap = [[True, False], [False, True]],
       bytes = [2, 1]\<rparr>
   \<and> glyphInvariant 2 \<lparr>char = str ''I'', ascii = Some 73, bitmap = [[True], [True]], bytes = [3]\<rparr>"
proof -
  let ?io = "\<lparr>rawData = str ''{2, 1}'', rawWidths = str '''', rawOffsets = str '''',
       characterSet = str ''A'', charHeight = 2, charWidth = 2, isDynamic = False\<rparr>"
  let ?g = "\<lparr>char = str ''A'', ascii = Some 65, bitmap = [[True, False], [False, True]],
       bytes = [2, 1]\<rparr>"
  let ?r = "\<lparr>fontData = [?g], optWidth = 2, optHeight = 2, optCharacterSet = str ''A'',
       optDynamicWidth = False, optCharSpacing = 0\<rparr>"
  let ?canvas = "\<lparr>contextAvailable = True, render = (\<lambda>ch. Inr [[False, True, False], [False, True, False]])\<rparr>"
  let ?options = "\<lparr>width = 3, height = 2, charSpacing = 0, dynamicWidth = True\<rparr>"
  let ?i = "\<lparr>char = str ''I'', ascii = Some 73, bitmap = [[True], [True]], bytes = [3]\<rparr>"
  note t = glyph_invariant_of_operations [of ?options ?canvas "[str ''I'']" "[?i]" 2 Top ?g ?io ?r "[]" 0 0]
  have p: "parseImportedData ?io = Inr ?r" by code_simp
  have d: "\<forall>b\<in>set (parseArrayString (rawData ?io)). 0 \<le> b \<and> b < 2 ^ nat (charHeight ?io)" by code_simp
  have e: "generateChars ?canvas ?options [str ''I''] = Inr [?i]"
    by (simp add: generateChars_def glyphOf_def str_def isWhiteSpace_def codePointAt0_def
        scanRendered_def slice_def bitmapToBytes_def row0_width_def encodeColumn_def px_def
        js_or_def js_shl_def toInt32_def upt_conv_Cons Let_def)
  have f: "\<not> isDynamic ?io" by simp
  have h: "1 \<le> height ?options \<and> height ?options \<le> 8" by simp
  from t p d f have "\<forall>g\<in>set (fontData ?r). glyphInvariant (charHeight ?io) g" by blast
  then have 1: "glyphInvariant 2 ?g" by simp
  from t e h have "\<forall>g\<in>set [?i]. glyphInvariant (height ?options) g" by blast
  then have 2: "glyphInvariant 2 ?i" by simp
  from 1 2 show ?thesis by blast
qed

end
